theory Spec2Isabelle
  imports Main
begin

section \<open>Strings\<close>

text \<open>
  JavaScript strings are modelled as \<^typ>\<open>string\<close>. Every test the program makes on a
  character is a test for an ASCII digit, an ASCII hexadecimal digit, a dot, a colon or a dash.
\<close>

text \<open>The regular-expression class \<^verbatim>\<open>\d\<close> (without the unicode flag: \<^verbatim>\<open>[0-9]\<close>).\<close>

definition is_digit :: "char \<Rightarrow> bool" where
  "is_digit c = (c \<in> set ''0123456789'')"

text \<open>The regular-expression class \<^verbatim>\<open>[0-9A-Fa-f]\<close>.\<close>

definition is_hex :: "char \<Rightarrow> bool" where
  "is_hex c = (c \<in> set ''0123456789ABCDEFabcdef'')"

text \<open>The regular-expression class \<^verbatim>\<open>[:-]\<close>.\<close>

definition is_sep :: "char \<Rightarrow> bool" where
  "is_sep c = (c = CHR '':'' \<or> c = CHR ''-'')"

text \<open>
  \<^verbatim>\<open>s.split(sep)\<close> for a one-character separator: the pieces between the
  separators, in order; a string without the separator is its own single piece, and the empty
  string gives one empty piece.
\<close>

fun split_on :: "char \<Rightarrow> string \<Rightarrow> string list" where
  "split_on sep [] = [[]]"
| "split_on sep (c # cs) =
     (if c = sep then [] # split_on sep cs
      else (case split_on sep cs of p # ps \<Rightarrow> (c # p) # ps | [] \<Rightarrow> [[c]]))"

definition digit_val :: "char \<Rightarrow> nat" where
  "digit_val c = of_char c - 48"

text \<open>The value of a string of decimal digits, most significant digit first.\<close>

definition dec_val :: "string \<Rightarrow> nat" where
  "dec_val s = foldl (\<lambda>n c. 10 * n + digit_val c) 0 s"

text \<open>\<^verbatim>\<open>/^\d+$/\<close>\<close>

definition all_digits :: "string \<Rightarrow> bool" where
  "all_digits s = (s \<noteq> [] \<and> list_all is_digit s)"

text \<open>
  \<^verbatim>\<open>Number(s)\<close>, with \<open>None\<close> for NaN. The model is exact on non-empty strings of
  decimal digits, which is all that the one call site can pass (it is guarded by the
  dotted-quad pattern); on any other string the model answers NaN, and nothing below relies
  on that.
\<close>

definition Number :: "string \<Rightarrow> nat option" where
  "Number s = (if all_digits s then Some (dec_val s) else None)"

text \<open>\<^verbatim>\<open>n.toString(2)\<close> on a non-negative integer.\<close>

fun toString2 :: "nat \<Rightarrow> string" where
  "toString2 n =
     (if n < 2 then [if n = 0 then CHR ''0'' else CHR ''1'']
      else toString2 (n div 2) @ [if n mod 2 = 0 then CHR ''0'' else CHR ''1''])"

declare toString2.simps [simp del]

text \<open>\<^verbatim>\<open>s.padStart(n, c)\<close> for a one-character pad.\<close>

definition padStart :: "nat \<Rightarrow> char \<Rightarrow> string \<Rightarrow> string" where
  "padStart n c s = replicate (n - length s) c @ s"

text \<open>Template interpolation of a non-negative integer: its decimal digits.\<close>

fun show_nat :: "nat \<Rightarrow> string" where
  "show_nat n =
     (if n < 10 then [char_of (48 + n)]
      else show_nat (n div 10) @ [char_of (48 + n mod 10)])"

declare show_nat.simps [simp del]

text \<open>
  Truthiness of an optional string property: present and not the empty string.
  \<^verbatim>\<open>a || b\<close> yields \<open>a\<close> when it is truthy and \<open>b\<close> otherwise.
\<close>

definition truthy :: "string option \<Rightarrow> bool" where
  "truthy v = (case v of None \<Rightarrow> False | Some s \<Rightarrow> s \<noteq> [])"

definition js_or :: "string option \<Rightarrow> string option \<Rightarrow> string option" where
  "js_or a b = (if truthy a then a else b)"

text \<open>
  \<^verbatim>\<open>Map.prototype.set\<close> on a map kept as the list of its entries in iteration order:
  a new key is appended at the end, an existing key keeps its position and gets the new value.
\<close>

fun map_set :: "'k \<Rightarrow> 'v \<Rightarrow> ('k \<times> 'v) list \<Rightarrow> ('k \<times> 'v) list" where
  "map_set k v [] = [(k, v)]"
| "map_set k v ((k', v') # es) =
     (if k' = k then (k, v) # es else (k', v') # map_set k v es)"

section \<open>types.ts\<close>

record Subnet =
  uuid :: string
  subnet :: string
  netmask :: string

record StaticMapping =
  mac :: string
  ipaddr :: string
  hostname :: "string option"
  description :: "string option"
  cid :: "string option"
  descr :: "string option"

text \<open>
  The fields of Reservation are \<^verbatim>\<open>uuid\<close>, \<^verbatim>\<open>subnet\<close>, \<^verbatim>\<open>hw_address\<close>,
  \<^verbatim>\<open>ip_address\<close>, \<^verbatim>\<open>hostname\<close> and \<^verbatim>\<open>description\<close>; those that share a name with
  a field of Subnet or StaticMapping carry the prefix \<open>r_\<close> here. An optional field that is
  \<open>None\<close> is absent from the object.
\<close>

record Reservation =
  r_uuid :: string
  r_subnet :: string
  hw_address :: string
  ip_address :: string
  r_hostname :: "string option"
  r_description :: "string option"

text \<open>
  The four arrays that migrate fills, and MigrationResult, which adds
  \<^verbatim>\<open>reservationsCreated\<close> to them.
\<close>

record MigrationArrays =
  reservations :: "Reservation list"
  unmatchedIPs :: "string list"
  warnings :: "string list"
  errors :: "string list"

record MigrationResult = MigrationArrays +
  reservationsCreated :: int


section \<open>The package ip-num, as cidr.ts uses it\<close>

text \<open>
  cidr.ts imports the classes IPv4 and IPv4CidrRange from the package ip-num, which is not
  part of the repository. An IPv4 address is modelled by its value, a natural number below
  \<open>2 ^ 32\<close>.
\<close>

text \<open>
  Modelled from the spec: the value of an address, which ip-num computes and the spec calls
  its unsigned 32-bit integer: the four octets as the digits of a number in base 256.
\<close>

definition ipv4_value :: "nat list \<Rightarrow> nat" where
  "ipv4_value os = foldl (\<lambda>v b. v * 256 + b) 0 os"

text \<open>
  Modelled from the spec: the constructor \<^verbatim>\<open>new IPv4(s)\<close> of ip-num, whose source is not
  in the repository. The spec says it accepts exactly four dot-separated decimal octets, each
  in 0..255, with no leading or trailing content; \<open>None\<close> stands for the exception it throws.
\<close>

definition IPv4 :: "string \<Rightarrow> nat option" where
  "IPv4 s =
     (let parts = split_on CHR ''.'' s in
      if length parts = 4 \<and> list_all all_digits parts \<and> list_all (\<lambda>p. dec_val p \<le> 255) parts
      then Some (ipv4_value (map dec_val parts))
      else None)"

text \<open>
  Modelled from the spec: an object of ip-num's class IPv4CidrRange, as the value of the
  address it was built from and its prefix length.
\<close>

record IPv4CidrRange =
  range_ip :: nat
  range_prefix :: nat

text \<open>
  Modelled from the spec: \<^verbatim>\<open>IPv4CidrRange.fromCidr\<close> of ip-num applied to the string
  \<^verbatim>\<open>`${subnet}/${prefix}`\<close>, given here as its two parts. The spec says a range is built
  from a valid dotted-quad base address and a prefix length in 0..32; \<open>None\<close> stands for the
  exception thrown otherwise.
\<close>

definition fromCidr :: "string \<Rightarrow> nat \<Rightarrow> IPv4CidrRange option" where
  "fromCidr base prefix =
     (case IPv4 base of
        None \<Rightarrow> None
      | Some ip \<Rightarrow> if prefix \<le> 32 then Some \<lparr>range_ip = ip, range_prefix = prefix\<rparr> else None)"

text \<open>
  Modelled from the spec: \<^verbatim>\<open>getFirst\<close> of ip-num's IPv4CidrRange. The spec says the
  first address comes from the prefix mask: the \<open>32 - N\<close> host bits of the address cleared.
\<close>

definition getFirst :: "IPv4CidrRange \<Rightarrow> nat" where
  "getFirst r = (range_ip r div 2 ^ (32 - range_prefix r)) * 2 ^ (32 - range_prefix r)"

text \<open>
  Modelled from the spec: \<^verbatim>\<open>getLast\<close> of ip-num's IPv4CidrRange. The spec says the last
  address comes from the prefix mask: the host bits all set.
\<close>

definition getLast :: "IPv4CidrRange \<Rightarrow> nat" where
  "getLast r = getFirst r + (2 ^ (32 - range_prefix r) - 1)"

text \<open>
  Modelled from the spec: \<^verbatim>\<open>getSize\<close> of ip-num's IPv4CidrRange. The spec says the
  size of a /N range is \<open>2 ^ (32 - N)\<close>.
\<close>

definition getSize :: "IPv4CidrRange \<Rightarrow> nat" where
  "getSize r = 2 ^ (32 - range_prefix r)"

text \<open>
  Modelled from the spec: \<^verbatim>\<open>contains\<close> of ip-num's IPv4CidrRange, as cidr.ts calls it
  on an address. The spec says an address is contained when it lies in the closed interval
  from the first to the last address, compared as unsigned 32-bit integers.
\<close>

definition contains :: "IPv4CidrRange \<Rightarrow> nat \<Rightarrow> bool" where
  "contains r ip = (getFirst r \<le> ip \<and> ip \<le> getLast r)"

section \<open>cidr.ts: SubnetMatcher\<close>

text \<open>
  The two private maps of the class, each as the list of its entries in iteration order.
\<close>

record SubnetMatcher =
  subnets :: "(string \<times> IPv4CidrRange) list"
  subnetMetadata :: "(string \<times> Subnet) list"

text \<open>
  netmaskToCIDR. No operation in its body throws on the strings it is given, so the
  \<^verbatim>\<open>catch\<close> branch is not modelled; \<^verbatim>\<open>octet < 0\<close> cannot hold of a natural number.
  With more than 32 leading ones \<^verbatim>\<open>'0'.repeat(32 - ones)\<close> would throw and the function
  return null; here the subtraction stops at 0, the comparison of the two strings fails and
  the result is the same.
\<close>

definition netmaskToCIDR :: "string \<Rightarrow> nat option" where
  "netmaskToCIDR nm =
     (let octets = map Number (split_on CHR ''.'' nm) in
      if length octets \<noteq> 4 then None
      else if list_ex (\<lambda>octet. case octet of None \<Rightarrow> True | Some v \<Rightarrow> v > 255) octets then None
      else
        let binary = concat (map (\<lambda>octet. padStart 8 CHR ''0''
                       (case octet of None \<Rightarrow> ''NaN'' | Some v \<Rightarrow> toString2 v)) octets);
            ones = length (takeWhile (\<lambda>c. c = CHR ''1'') binary);
            expectedBinary = replicate ones CHR ''1'' @ replicate (32 - ones) CHR ''0''
        in if binary \<noteq> expectedBinary then None else Some ones)"

text \<open>
  \<^verbatim>\<open>/^\d{1,3}\.\d{1,3}\.\d{1,3}\.\d{1,3}$/\<close>: one to three digits, taken greedily (a
  fourth digit in a row makes the match fail, since a dot or the end must follow), three
  times followed by a dot, and a fourth time followed by the end of the string.
\<close>

definition match_digits_1_3 :: "string \<Rightarrow> string option" where
  "match_digits_1_3 s =
     (let n = length (takeWhile is_digit (take 3 s)) in if n = 0 then None else Some (drop n s))"

definition match_dot :: "string \<Rightarrow> string option" where
  "match_dot s = (case s of [] \<Rightarrow> None | c # rest \<Rightarrow> if c = CHR ''.'' then Some rest else None)"

definition match_octet_dot :: "string \<Rightarrow> string option" where
  "match_octet_dot s = (case match_digits_1_3 s of None \<Rightarrow> None | Some rest \<Rightarrow> match_dot rest)"

definition dotted_quad_re :: "string \<Rightarrow> bool" where
  "dotted_quad_re s =
     (case match_octet_dot s of None \<Rightarrow> False | Some r1 \<Rightarrow>
      (case match_octet_dot r1 of None \<Rightarrow> False | Some r2 \<Rightarrow>
       (case match_octet_dot r2 of None \<Rightarrow> False | Some r3 \<Rightarrow>
        (case match_digits_1_3 r3 of None \<Rightarrow> False | Some r4 \<Rightarrow> r4 = []))))"

text \<open>
  buildCIDR. \<^verbatim>\<open>new IPv4(subnet)\<close> comes first, and its exception is caught and turned
  into null. \<^verbatim>\<open>parseInt(netmask, 10)\<close> on a string of digits is its decimal value, which
  is never negative.
\<close>

definition buildCIDR :: "string \<Rightarrow> string \<Rightarrow> IPv4CidrRange option" where
  "buildCIDR sn nm =
     (case IPv4 sn of
        None \<Rightarrow> None
      | Some _ \<Rightarrow>
          if all_digits nm then
            (let prefix = dec_val nm in
             if prefix > 32 then None else fromCidr sn prefix)
          else if dotted_quad_re nm then
            (case netmaskToCIDR nm of
               None \<Rightarrow> None
             | Some prefixLength \<Rightarrow> fromCidr sn prefixLength)
          else None)"

text \<open>buildSubnetMap: the body of the loop, and the loop over the records in their order.\<close>

definition buildSubnetMap_step :: "Subnet \<Rightarrow> SubnetMatcher \<Rightarrow> SubnetMatcher" where
  "buildSubnetMap_step sn m =
     (case buildCIDR (subnet sn) (netmask sn) of
        Some cidr \<Rightarrow>
          m\<lparr>subnets := map_set (uuid sn) cidr (subnets m),
            subnetMetadata := map_set (uuid sn) sn (subnetMetadata m)\<rparr>
      | None \<Rightarrow> m)"

fun buildSubnetMap :: "Subnet list \<Rightarrow> SubnetMatcher \<Rightarrow> SubnetMatcher" where
  "buildSubnetMap [] m = m"
| "buildSubnetMap (sn # sns) m = buildSubnetMap sns (buildSubnetMap_step sn m)"

text \<open>The constructor: both maps start empty.\<close>

definition new_SubnetMatcher :: "Subnet list \<Rightarrow> SubnetMatcher" where
  "new_SubnetMatcher sns = buildSubnetMap sns \<lparr>subnets = [], subnetMetadata = []\<rparr>"

text \<open>findSubnetForIP: the loop over the entries of the map, and the method.\<close>

fun first_containing :: "(string \<times> IPv4CidrRange) list \<Rightarrow> nat \<Rightarrow> string option" where
  "first_containing [] ip = None"
| "first_containing ((u, cidrRange) # es) ip =
     (if contains cidrRange ip then Some u else first_containing es ip)"

definition findSubnetForIP :: "SubnetMatcher \<Rightarrow> string \<Rightarrow> string option" where
  "findSubnetForIP m ipAddress =
     (case IPv4 ipAddress of
        None \<Rightarrow> None
      | Some ip \<Rightarrow> first_containing (subnets m) ip)"

definition getSubnetInfo :: "SubnetMatcher \<Rightarrow> string \<Rightarrow> Subnet option" where
  "getSubnetInfo m u = map_of (subnetMetadata m) u"

definition getAllSubnets :: "SubnetMatcher \<Rightarrow> Subnet list" where
  "getAllSubnets m = map snd (subnetMetadata m)"

definition isValidIP :: "string \<Rightarrow> bool" where
  "isValidIP ipAddress = (case IPv4 ipAddress of None \<Rightarrow> False | Some _ \<Rightarrow> True)"

section \<open>migrator.ts: isValidMAC\<close>

text \<open>
  \<^verbatim>\<open>/^([0-9A-Fa-f]{2}[:-]){5}([0-9A-Fa-f]{2})$/\<close>: the group
  \<^verbatim>\<open>[0-9A-Fa-f]{2}[:-]\<close> consumes three characters from the front of the input,
  and is repeated five times; then two hexadecimal digits must be all that is left. Every
  piece of the pattern has a fixed width, so matching is a single left-to-right pass.
\<close>

fun match_group_sep :: "string \<Rightarrow> string option" where
  "match_group_sep (a # b # c # rest) =
     (if is_hex a \<and> is_hex b \<and> is_sep c then Some rest else None)"
| "match_group_sep _ = None"

fun match_repeat :: "nat \<Rightarrow> string \<Rightarrow> string option" where
  "match_repeat 0 s = Some s"
| "match_repeat (Suc n) s =
     (case match_group_sep s of None \<Rightarrow> None | Some rest \<Rightarrow> match_repeat n rest)"

definition mac_pattern_grouped :: "string \<Rightarrow> bool" where
  "mac_pattern_grouped s =
     (case match_repeat 5 s of
        None \<Rightarrow> False
      | Some rest \<Rightarrow> (case rest of [a, b] \<Rightarrow> is_hex a \<and> is_hex b | _ \<Rightarrow> False))"

text \<open>\<^verbatim>\<open>/^[0-9A-Fa-f]{12}$/\<close>\<close>

definition mac_pattern_bare :: "string \<Rightarrow> bool" where
  "mac_pattern_bare s = (length s = 12 \<and> list_all is_hex s)"

text \<open>\<^verbatim>\<open>patterns.some(pattern => pattern.test(mac))\<close>\<close>

definition isValidMAC :: "string \<Rightarrow> bool" where
  "isValidMAC s = list_ex (\<lambda>pattern. pattern s) [mac_pattern_grouped, mac_pattern_bare]"

subsection \<open>The specification's reading of a hardware address\<close>

text \<open>
  Six groups of two hexadecimal digits with five separators between them, each a colon or
  a dash; or twelve hexadecimal digits and nothing else.
\<close>

definition hex_pair :: "string \<Rightarrow> bool" where
  "hex_pair g = (length g = 2 \<and> list_all is_hex g)"

definition mac_spec :: "string \<Rightarrow> bool" where
  "mac_spec s =
     ((\<exists>g1 g2 g3 g4 g5 g6 s1 s2 s3 s4 s5.
         hex_pair g1 \<and> hex_pair g2 \<and> hex_pair g3 \<and> hex_pair g4 \<and> hex_pair g5 \<and> hex_pair g6 \<and>
         is_sep s1 \<and> is_sep s2 \<and> is_sep s3 \<and> is_sep s4 \<and> is_sep s5 \<and>
         s = g1 @ [s1] @ g2 @ [s2] @ g3 @ [s3] @ g4 @ [s4] @ g5 @ [s5] @ g6)
      \<or> (length s = 12 \<and> list_all is_hex s))"

section \<open>migrator.ts: DHCPMigrator\<close>

record DHCPMigrator =
  subnetMatcher :: SubnetMatcher
  verbose :: bool

definition new_DHCPMigrator :: "Subnet list \<Rightarrow> bool \<Rightarrow> DHCPMigrator" where
  "new_DHCPMigrator sns v = \<lparr>subnetMatcher = new_SubnetMatcher sns, verbose = v\<rparr>"

text \<open>The four messages that migrate builds, as the template strings give them.\<close>

definition missing_fields_warning :: "nat \<Rightarrow> StaticMapping \<Rightarrow> string" where
  "missing_fields_warning i mp =
     ''Skipping mapping #'' @ show_nat (i + 1) @ '': Missing required fields (mac: '' @ mac mp
       @ '', ip: '' @ ipaddr mp @ '')''"

definition invalid_mac_warning :: "StaticMapping \<Rightarrow> string" where
  "invalid_mac_warning mp =
     ''Invalid MAC address format: '' @ mac mp @ '' (IP: '' @ ipaddr mp @ '')''"

definition invalid_ip_error :: "StaticMapping \<Rightarrow> string" where
  "invalid_ip_error mp = ''Invalid IP address: '' @ ipaddr mp @ '' (MAC: '' @ mac mp @ '')''"

definition no_subnet_warning :: "StaticMapping \<Rightarrow> string" where
  "no_subnet_warning mp =
     ''No subnet found for IP: '' @ ipaddr mp @ '' (MAC: '' @ mac mp
       @ (case hostname mp of
            None \<Rightarrow> []
          | Some h \<Rightarrow> if h \<noteq> [] then '', hostname: '' @ h else [])
       @ '')''"

text \<open>
  The reservation object: hostname and description are set only when the value is truthy.
  The first argument is the value that \<^verbatim>\<open>randomUUID()\<close> returned.
\<close>

definition make_reservation :: "string \<Rightarrow> string \<Rightarrow> StaticMapping \<Rightarrow> Reservation" where
  "make_reservation fresh subnetUUID mp =
     \<lparr>r_uuid = fresh, r_subnet = subnetUUID, hw_address = mac mp, ip_address = ipaddr mp,
      r_hostname = (if truthy (hostname mp) then hostname mp else None),
      r_description =
        (if truthy (js_or (description mp) (descr mp))
         then js_or (description mp) (descr mp) else None)\<rparr>"

text \<open>
  The body of the loop of migrate, on the four arrays; \<open>i\<close> is the loop index. The calls of
  \<^verbatim>\<open>randomUUID\<close> are modelled by a sequence of identifiers: the call that follows \<open>k\<close>
  earlier calls returns \<open>randomUUID k\<close>, and there is one call for each reservation. Console
  output (the verbose branches) does not reach the result and is left out.
  \<^verbatim>\<open>!mapping.mac\<close> holds of the empty string, and \<^verbatim>\<open>!subnetUUID\<close> of null and of the
  empty string.
\<close>

definition migrate_step ::
  "DHCPMigrator \<Rightarrow> (nat \<Rightarrow> string) \<Rightarrow> nat \<Rightarrow> StaticMapping \<Rightarrow> MigrationArrays \<Rightarrow> MigrationArrays"
where
  "migrate_step this randomUUID i mp st =
     (if mac mp = [] \<or> ipaddr mp = [] then
        st\<lparr>warnings := warnings st @ [missing_fields_warning i mp]\<rparr>
      else if \<not> isValidMAC (mac mp) then
        st\<lparr>warnings := warnings st @ [invalid_mac_warning mp]\<rparr>
      else if \<not> isValidIP (ipaddr mp) then
        st\<lparr>errors := errors st @ [invalid_ip_error mp]\<rparr>
      else
        (let subnetUUID = findSubnetForIP (subnetMatcher this) (ipaddr mp) in
         if \<not> truthy subnetUUID then
           st\<lparr>unmatchedIPs := unmatchedIPs st @ [ipaddr mp],
              warnings := warnings st @ [no_subnet_warning mp]\<rparr>
         else
           st\<lparr>reservations := reservations st @
                [make_reservation (randomUUID (length (reservations st))) (the subnetUUID) mp]\<rparr>))"

fun migrate_loop ::
  "DHCPMigrator \<Rightarrow> (nat \<Rightarrow> string) \<Rightarrow> nat \<Rightarrow> StaticMapping list \<Rightarrow> MigrationArrays \<Rightarrow> MigrationArrays"
where
  "migrate_loop this randomUUID i [] st = st"
| "migrate_loop this randomUUID i (mp # mps) st =
     migrate_loop this randomUUID (Suc i) mps (migrate_step this randomUUID i mp st)"

definition migrate ::
  "DHCPMigrator \<Rightarrow> (nat \<Rightarrow> string) \<Rightarrow> StaticMapping list \<Rightarrow> MigrationResult"
where
  "migrate this randomUUID staticMappings =
     (let st = migrate_loop this randomUUID 0 staticMappings
                 \<lparr>reservations = [], unmatchedIPs = [], warnings = [], errors = []\<rparr>
      in \<lparr>reservations = reservations st, unmatchedIPs = unmatchedIPs st,
          warnings = warnings st, errors = errors st,
          reservationsCreated = int (length (reservations st))\<rparr>)"


text \<open>validateMigration: its three messages, the counting loop, and the method.\<close>

definition no_subnets_issue :: string where
  "no_subnets_issue = ''No Kea subnets found in configuration''"

definition no_mappings_issue :: string where
  "no_mappings_issue = ''No ISC DHCP static mappings found in configuration''"

definition no_valid_mappings_issue :: string where
  "no_valid_mappings_issue = ''No valid static mappings found (missing MAC or IP addresses)''"

record ValidationResult =
  valid :: bool
  issues :: "string list"

fun count_validMappings :: "StaticMapping list \<Rightarrow> nat \<Rightarrow> nat" where
  "count_validMappings [] validMappings = validMappings"
| "count_validMappings (mp # mps) validMappings =
     count_validMappings mps
       (if mac mp \<noteq> [] \<and> ipaddr mp \<noteq> [] then validMappings + 1 else validMappings)"

definition validateMigration :: "DHCPMigrator \<Rightarrow> StaticMapping list \<Rightarrow> ValidationResult" where
  "validateMigration this staticMappings =
     (let sns = getAllSubnets (subnetMatcher this);
          issues1 = (if length sns = 0 then [no_subnets_issue] else []);
          issues2 = (if length staticMappings = 0 then issues1 @ [no_mappings_issue] else issues1);
          validMappings = count_validMappings staticMappings 0;
          issues3 = (if validMappings = 0 \<and> length staticMappings > 0
                     then issues2 @ [no_valid_mappings_issue] else issues2)
      in \<lparr>valid = (length issues3 = 0), issues = issues3\<rparr>)"

section \<open>Specification-side notions\<close>

text \<open>
  The 32-bit value of a dotted quad: its four decimal octets, each at most 255, most
  significant first.
\<close>

definition dotted_quad_value :: "string \<Rightarrow> nat option" where
  "dotted_quad_value s =
     (let os = map dec_val (split_on CHR ''.'' s) in
      if list_all (\<lambda>v. v \<le> 255) os then Some (ipv4_value os) else None)"

text \<open>
  A 32-bit value is a left-aligned run of \<open>n\<close> one-bits followed by zero-bits: bit \<open>i\<close>
  (counted from the least significant) is set exactly for the top \<open>n\<close> positions.
\<close>

definition mask_bits_contiguous :: "nat \<Rightarrow> nat \<Rightarrow> bool" where
  "mask_bits_contiguous v n = (n \<le> 32 \<and> (\<forall>i<32. bit v i = (32 - n \<le> i)))"

text \<open>
  The range that buildSubnetMap computes for a record, whether the record is retained (its
  range could be built), and whether its range contains an address.
\<close>

definition range_of :: "Subnet \<Rightarrow> IPv4CidrRange option" where
  "range_of sn = buildCIDR (subnet sn) (netmask sn)"

definition retained :: "Subnet \<Rightarrow> bool" where
  "retained sn = (range_of sn \<noteq> None)"

definition contains_ip :: "nat \<Rightarrow> Subnet \<Rightarrow> bool" where
  "contains_ip ip sn = (case range_of sn of None \<Rightarrow> False | Some r \<Rightarrow> contains r ip)"

text \<open>
  The prefix length that a mask string denotes: the number written in digits, at most 32, or
  the number of leading one-bits of a dotted-quad netmask whose 32-bit value is a run of ones
  followed by zeros.
\<close>

definition mask_prefix :: "string \<Rightarrow> nat \<Rightarrow> bool" where
  "mask_prefix nm n =
     ((all_digits nm \<and> dec_val nm = n \<and> n \<le> 32)
      \<or> (dotted_quad_re nm \<and> (\<exists>v. dotted_quad_value nm = Some v \<and> mask_bits_contiguous v n)))"

text \<open>
  An address lies in the subnet of a record: the base address is valid, the mask denotes a
  prefix length \<open>n\<close>, and the address agrees with the base address on its top \<open>n\<close> bits.
\<close>

definition subnet_contains :: "Subnet \<Rightarrow> nat \<Rightarrow> bool" where
  "subnet_contains sn ip =
     (\<exists>b n. IPv4 (subnet sn) = Some b \<and> mask_prefix (netmask sn) n \<and>
        ip div 2 ^ (32 - n) = b div 2 ^ (32 - n))"

text \<open>The first record, in the order of the input list, whose range contains the address.\<close>

definition first_in_input_order :: "Subnet list \<Rightarrow> nat \<Rightarrow> Subnet option" where
  "first_in_input_order sns ip = find (contains_ip ip) sns"

text \<open>
  A string that consists of exactly four decimal octets separated by dots, each of value at
  most 255, and nothing before or after.
\<close>

definition ipv4_spec :: "string \<Rightarrow> bool" where
  "ipv4_spec s =
     (\<exists>a b c d. all_digits a \<and> all_digits b \<and> all_digits c \<and> all_digits d \<and>
        dec_val a \<le> 255 \<and> dec_val b \<le> 255 \<and> dec_val c \<le> 255 \<and> dec_val d \<le> 255 \<and>
        s = a @ CHR ''.'' # b @ CHR ''.'' # c @ CHR ''.'' # d)"

text \<open>
  The five outcomes of one mapping record, decided in the order of the spec: missing field,
  invalid hardware address, invalid IP address, no range containing the address, success.
  \<open>in_some_range\<close> says that some range kept in the matcher's map contains the address that
  the string denotes.
\<close>

datatype outcome = MissingFields | InvalidMAC | InvalidIP | Unmatched | Success

definition in_some_range :: "DHCPMigrator \<Rightarrow> string \<Rightarrow> bool" where
  "in_some_range this s =
     (case IPv4 s of
        None \<Rightarrow> False
      | Some ip \<Rightarrow> list_ex (\<lambda>e. contains (snd e) ip) (subnets (subnetMatcher this)))"

definition outcome_of :: "DHCPMigrator \<Rightarrow> StaticMapping \<Rightarrow> outcome" where
  "outcome_of this mp =
     (if mac mp = [] \<or> ipaddr mp = [] then MissingFields
      else if \<not> isValidMAC (mac mp) then InvalidMAC
      else if \<not> isValidIP (ipaddr mp) then InvalidIP
      else if \<not> in_some_range this (ipaddr mp) then Unmatched
      else Success)"

text \<open>
  The branch that the body of the loop takes: as \<open>outcome_of\<close>, but with the test that the
  code makes on the value returned by findSubnetForIP.
\<close>

definition step_outcome :: "DHCPMigrator \<Rightarrow> StaticMapping \<Rightarrow> outcome" where
  "step_outcome this mp =
     (if mac mp = [] \<or> ipaddr mp = [] then MissingFields
      else if \<not> isValidMAC (mac mp) then InvalidMAC
      else if \<not> isValidIP (ipaddr mp) then InvalidIP
      else if \<not> truthy (findSubnetForIP (subnetMatcher this) (ipaddr mp)) then Unmatched
      else Success)"

text \<open>
  What one record contributes to the result: the reservation of a successful record, given
  its position \<open>k\<close> among the successful ones, and the warnings of the record at index \<open>i\<close>.
\<close>

definition reservation_at :: "DHCPMigrator \<Rightarrow> (nat \<Rightarrow> string) \<Rightarrow> nat \<times> StaticMapping \<Rightarrow> Reservation" where
  "reservation_at this randomUUID p =
     make_reservation (randomUUID (fst p))
       (the (findSubnetForIP (subnetMatcher this) (ipaddr (snd p)))) (snd p)"

definition warnings_at :: "DHCPMigrator \<Rightarrow> nat \<times> StaticMapping \<Rightarrow> string list" where
  "warnings_at this p =
     (case step_outcome this (snd p) of
        MissingFields \<Rightarrow> [missing_fields_warning (fst p) (snd p)]
      | InvalidMAC \<Rightarrow> [invalid_mac_warning (snd p)]
      | InvalidIP \<Rightarrow> []
      | Unmatched \<Rightarrow> [no_subnet_warning (snd p)]
      | Success \<Rightarrow> [])"

definition succeeds :: "DHCPMigrator \<Rightarrow> StaticMapping \<Rightarrow> bool" where
  "succeeds this mp = (step_outcome this mp = Success)"

definition has_invalid_ip :: "DHCPMigrator \<Rightarrow> StaticMapping \<Rightarrow> bool" where
  "has_invalid_ip this mp = (step_outcome this mp = InvalidIP)"

definition is_unmatched :: "DHCPMigrator \<Rightarrow> StaticMapping \<Rightarrow> bool" where
  "is_unmatched this mp = (step_outcome this mp = Unmatched)"

text \<open>No id kept in the matcher's map is the empty string.\<close>

definition ids_nonempty :: "DHCPMigrator \<Rightarrow> bool" where
  "ids_nonempty this = list_all (\<lambda>e. fst e \<noteq> []) (subnets (subnetMatcher this))"

text \<open>A sequence of identifiers for the examples.\<close>

definition example_randomUUID :: "nat \<Rightarrow> string" where
  "example_randomUUID k = ''generated-'' @ show_nat k"

section \<open>Auxiliary notions for the proofs\<close>

text \<open>The number that a string of the characters 0 and 1 denotes in binary.\<close>

definition bin_val :: "string \<Rightarrow> nat" where
  "bin_val s = foldl (\<lambda>n c. 2 * n + (if c = CHR ''1'' then 1 else 0)) 0 s"

definition bitstring :: "string \<Rightarrow> bool" where
  "bitstring s = (set s \<subseteq> {CHR ''0'', CHR ''1''})"

text \<open>The pieces of a split put back together with the separator between them.\<close>

fun join_with :: "char \<Rightarrow> string list \<Rightarrow> string" where
  "join_with sep [] = []"
| "join_with sep [p] = p"
| "join_with sep (p # q # ps) = p @ sep # join_with sep (q # ps)"

text \<open>The last three steps of netmaskToCIDR, as a function of the string \<^verbatim>\<open>binary\<close>.\<close>

definition leading_ones_check :: "string \<Rightarrow> nat option" where
  "leading_ones_check binary =
     (let ones = length (takeWhile (\<lambda>c. c = CHR ''1'') binary);
          expectedBinary = replicate ones CHR ''1'' @ replicate (32 - ones) CHR ''0''
      in if binary \<noteq> expectedBinary then None else Some ones)"

section \<open>Hardware-address validation: proofs\<close>

lemma match_group_sep_Some:
  "match_group_sep s = Some rest \<longleftrightarrow>
     (\<exists>g c. hex_pair g \<and> is_sep c \<and> s = g @ [c] @ rest)"
proof
  assume h: "match_group_sep s = Some rest"
  then obtain a b c where s: "s = a # b # c # rest" and ok: "is_hex a" "is_hex b" "is_sep c"
    by (cases s rule: match_group_sep.cases) (auto split: if_splits)
  have "hex_pair [a, b]" using ok by (simp add: hex_pair_def)
  moreover have "s = [a, b] @ [c] @ rest" using s by simp
  ultimately show "\<exists>g c. hex_pair g \<and> is_sep c \<and> s = g @ [c] @ rest"
    using ok(3) by blast
next
  assume "\<exists>g c. hex_pair g \<and> is_sep c \<and> s = g @ [c] @ rest"
  then obtain g c where g: "hex_pair g" and c: "is_sep c" and s: "s = g @ [c] @ rest"
    by blast
  from g obtain a b where "g = [a, b]" "is_hex a" "is_hex b"
    by (cases g; cases "tl g") (auto simp: hex_pair_def)
  then show "match_group_sep s = Some rest"
    using c s by simp
qed

lemma hex_pair_final:
  "(case rest of [a, b] \<Rightarrow> is_hex a \<and> is_hex b | _ \<Rightarrow> False) = hex_pair rest"
  by (auto simp: hex_pair_def split: list.splits)

lemma match_repeat_5:
  "match_repeat 5 s =
     (case match_group_sep s of None \<Rightarrow> None | Some r1 \<Rightarrow>
      (case match_group_sep r1 of None \<Rightarrow> None | Some r2 \<Rightarrow>
       (case match_group_sep r2 of None \<Rightarrow> None | Some r3 \<Rightarrow>
        (case match_group_sep r3 of None \<Rightarrow> None | Some r4 \<Rightarrow> match_group_sep r4))))"
proof -
  have five: "(5::nat) = Suc (Suc (Suc (Suc (Suc 0))))" by simp
  show ?thesis
    unfolding five by (simp split: option.splits)
qed

lemma mac_pattern_groupedI:
  assumes "hex_pair g1" "hex_pair g2" "hex_pair g3" "hex_pair g4" "hex_pair g5" "hex_pair g6"
    and "is_sep s1" "is_sep s2" "is_sep s3" "is_sep s4" "is_sep s5"
  shows "mac_pattern_grouped (g1 @ [s1] @ g2 @ [s2] @ g3 @ [s3] @ g4 @ [s4] @ g5 @ [s5] @ g6)"
proof -
  have step: "match_group_sep (g @ [c] @ rest) = Some rest" if "hex_pair g" "is_sep c"
    for g c rest
    using that match_group_sep_Some [of "g @ [c] @ rest" rest] by blast
  have "match_repeat 5 (g1 @ [s1] @ g2 @ [s2] @ g3 @ [s3] @ g4 @ [s4] @ g5 @ [s5] @ g6) = Some g6"
    unfolding match_repeat_5 using assms by (simp only: step option.case)
  then show ?thesis
    using assms(6) by (simp add: mac_pattern_grouped_def hex_pair_final)
qed

lemma mac_pattern_groupedD:
  assumes "mac_pattern_grouped s"
  shows "\<exists>g1 g2 g3 g4 g5 g6 s1 s2 s3 s4 s5.
         hex_pair g1 \<and> hex_pair g2 \<and> hex_pair g3 \<and> hex_pair g4 \<and> hex_pair g5 \<and> hex_pair g6 \<and>
         is_sep s1 \<and> is_sep s2 \<and> is_sep s3 \<and> is_sep s4 \<and> is_sep s5 \<and>
         s = g1 @ [s1] @ g2 @ [s2] @ g3 @ [s3] @ g4 @ [s4] @ g5 @ [s5] @ g6"
proof -
  from assms obtain r5 where m5: "match_repeat 5 s = Some r5" and fin: "hex_pair r5"
    by (auto simp: mac_pattern_grouped_def hex_pair_final split: option.splits)
  from m5 obtain r1 where 1: "match_group_sep s = Some r1"
    unfolding match_repeat_5 by (cases "match_group_sep s") auto
  from m5 1 obtain r2 where 2: "match_group_sep r1 = Some r2"
    unfolding match_repeat_5 by (cases "match_group_sep r1") auto
  from m5 1 2 obtain r3 where 3: "match_group_sep r2 = Some r3"
    unfolding match_repeat_5 by (cases "match_group_sep r2") auto
  from m5 1 2 3 obtain r4 where 4: "match_group_sep r3 = Some r4"
    unfolding match_repeat_5 by (cases "match_group_sep r3") auto
  from m5 1 2 3 4 have 5: "match_group_sep r4 = Some r5"
    unfolding match_repeat_5 by simp
  from 1 obtain g1 s1 where a1: "hex_pair g1" "is_sep s1" "s = g1 @ [s1] @ r1"
    unfolding match_group_sep_Some by blast
  from 2 obtain g2 s2 where a2: "hex_pair g2" "is_sep s2" "r1 = g2 @ [s2] @ r2"
    unfolding match_group_sep_Some by blast
  from 3 obtain g3 s3 where a3: "hex_pair g3" "is_sep s3" "r2 = g3 @ [s3] @ r3"
    unfolding match_group_sep_Some by blast
  from 4 obtain g4 s4 where a4: "hex_pair g4" "is_sep s4" "r3 = g4 @ [s4] @ r4"
    unfolding match_group_sep_Some by blast
  from 5 obtain g5 s5 where a5: "hex_pair g5" "is_sep s5" "r4 = g5 @ [s5] @ r5"
    unfolding match_group_sep_Some by blast
  have "hex_pair g1 \<and> hex_pair g2 \<and> hex_pair g3 \<and> hex_pair g4 \<and> hex_pair g5 \<and> hex_pair r5 \<and>
         is_sep s1 \<and> is_sep s2 \<and> is_sep s3 \<and> is_sep s4 \<and> is_sep s5 \<and>
         s = g1 @ [s1] @ g2 @ [s2] @ g3 @ [s3] @ g4 @ [s4] @ g5 @ [s5] @ r5"
    using a1 a2 a3 a4 a5 fin by simp
  then show ?thesis
    apply (rule_tac x = g1 in exI)
    apply (rule_tac x = g2 in exI)
    apply (rule_tac x = g3 in exI)
    apply (rule_tac x = g4 in exI)
    apply (rule_tac x = g5 in exI)
    apply (rule_tac x = r5 in exI)
    apply (rule_tac x = s1 in exI)
    apply (rule_tac x = s2 in exI)
    apply (rule_tac x = s3 in exI)
    apply (rule_tac x = s4 in exI)
    apply (rule_tac x = s5 in exI)
    apply assumption
    done
qed

lemma mac_pattern_grouped_iff:
  "mac_pattern_grouped s \<longleftrightarrow>
     (\<exists>g1 g2 g3 g4 g5 g6 s1 s2 s3 s4 s5.
         hex_pair g1 \<and> hex_pair g2 \<and> hex_pair g3 \<and> hex_pair g4 \<and> hex_pair g5 \<and> hex_pair g6 \<and>
         is_sep s1 \<and> is_sep s2 \<and> is_sep s3 \<and> is_sep s4 \<and> is_sep s5 \<and>
         s = g1 @ [s1] @ g2 @ [s2] @ g3 @ [s3] @ g4 @ [s4] @ g5 @ [s5] @ g6)"
  (is "?L \<longleftrightarrow> ?R")
proof
  assume ?L
  then show ?R by (rule mac_pattern_groupedD)
next
  assume ?R
  then obtain g1 g2 g3 g4 g5 g6 s1 s2 s3 s4 s5 where
    "hex_pair g1" "hex_pair g2" "hex_pair g3" "hex_pair g4" "hex_pair g5" "hex_pair g6"
    "is_sep s1" "is_sep s2" "is_sep s3" "is_sep s4" "is_sep s5"
    "s = g1 @ [s1] @ g2 @ [s2] @ g3 @ [s3] @ g4 @ [s4] @ g5 @ [s5] @ g6"
    by (elim exE conjE)
  then show ?L
    by (simp only: mac_pattern_groupedI)
qed

text \<open>
  C4. For every string, isValidMAC accepts it exactly when it is six two-hex-digit groups
  separated by colons or dashes, or twelve hex digits and nothing else (upper and lower case
  both); it accepts 00:11:22:33:44:55, 00-11-22-33-44-55 and 001122334455, and rejects
  00:11:22:33:44 and ZZ:11:22:33:44:55.
\<close>

theorem isValidMAC_iff_spec:
  "(isValidMAC s \<longleftrightarrow> mac_spec s)
   \<and> isValidMAC ''00:11:22:33:44:55''
   \<and> isValidMAC ''00-11-22-33-44-55''
   \<and> isValidMAC ''001122334455''
   \<and> \<not> isValidMAC ''00:11:22:33:44''
   \<and> \<not> isValidMAC ''ZZ:11:22:33:44:55''"
proof -
  have "isValidMAC s \<longleftrightarrow> mac_spec s"
    unfolding isValidMAC_def mac_spec_def
    by (simp add: mac_pattern_grouped_iff mac_pattern_bare_def)
  moreover have "isValidMAC ''00:11:22:33:44:55''"
    by (simp add: isValidMAC_def mac_pattern_grouped_def is_hex_def is_sep_def eval_nat_numeral)
  moreover have "isValidMAC ''00-11-22-33-44-55''"
    by (simp add: isValidMAC_def mac_pattern_grouped_def is_hex_def is_sep_def eval_nat_numeral)
  moreover have "isValidMAC ''001122334455''"
    by (simp add: isValidMAC_def mac_pattern_bare_def is_hex_def)
  moreover have "\<not> isValidMAC ''00:11:22:33:44''"
    by (simp add: isValidMAC_def mac_pattern_grouped_def mac_pattern_bare_def
        is_hex_def is_sep_def eval_nat_numeral)
  moreover have "\<not> isValidMAC ''ZZ:11:22:33:44:55''"
    by (simp add: isValidMAC_def mac_pattern_grouped_def mac_pattern_bare_def
        is_hex_def is_sep_def eval_nat_numeral)
  ultimately show ?thesis by blast
qed

theorem isValidMAC_iff_spec_witness:
  "isValidMAC ''aB:cd-EF:01:9f-A0'' \<and> mac_spec ''aB:cd-EF:01:9f-A0''"
proof -
  have "isValidMAC ''aB:cd-EF:01:9f-A0''"
    by (simp add: isValidMAC_def mac_pattern_grouped_def is_hex_def is_sep_def eval_nat_numeral)
  then show ?thesis
    using isValidMAC_iff_spec [of "''aB:cd-EF:01:9f-A0''"] by blast
qed

text \<open>
  C10. The five separators are chosen independently: any six two-hex-digit groups joined by
  any five separators, each a colon or a dash, are accepted, 00:11-22:33-44:55 among them.
\<close>

theorem isValidMAC_mixed_separators:
  "isValidMAC ''00:11-22:33-44:55''
   \<and> (\<forall>g1 g2 g3 g4 g5 g6 s1 s2 s3 s4 s5.
        hex_pair g1 \<and> hex_pair g2 \<and> hex_pair g3 \<and> hex_pair g4 \<and> hex_pair g5 \<and> hex_pair g6 \<and>
        is_sep s1 \<and> is_sep s2 \<and> is_sep s3 \<and> is_sep s4 \<and> is_sep s5 \<longrightarrow>
        isValidMAC (g1 @ [s1] @ g2 @ [s2] @ g3 @ [s3] @ g4 @ [s4] @ g5 @ [s5] @ g6))"
proof -
  have "isValidMAC ''00:11-22:33-44:55''"
    by (simp add: isValidMAC_def mac_pattern_grouped_def is_hex_def is_sep_def eval_nat_numeral)
  moreover have "\<forall>g1 g2 g3 g4 g5 g6 s1 s2 s3 s4 s5.
        hex_pair g1 \<and> hex_pair g2 \<and> hex_pair g3 \<and> hex_pair g4 \<and> hex_pair g5 \<and> hex_pair g6 \<and>
        is_sep s1 \<and> is_sep s2 \<and> is_sep s3 \<and> is_sep s4 \<and> is_sep s5 \<longrightarrow>
        isValidMAC (g1 @ [s1] @ g2 @ [s2] @ g3 @ [s3] @ g4 @ [s4] @ g5 @ [s5] @ g6)"
  proof (intro allI impI)
    fix g1 g2 g3 g4 g5 g6 :: string and s1 s2 s3 s4 s5 :: char
    assume "hex_pair g1 \<and> hex_pair g2 \<and> hex_pair g3 \<and> hex_pair g4 \<and> hex_pair g5 \<and>
        hex_pair g6 \<and> is_sep s1 \<and> is_sep s2 \<and> is_sep s3 \<and> is_sep s4 \<and> is_sep s5"
    then have "mac_pattern_grouped
        (g1 @ [s1] @ g2 @ [s2] @ g3 @ [s3] @ g4 @ [s4] @ g5 @ [s5] @ g6)"
      by (elim conjE) (rule mac_pattern_groupedI)
    then show "isValidMAC (g1 @ [s1] @ g2 @ [s2] @ g3 @ [s3] @ g4 @ [s4] @ g5 @ [s5] @ g6)"
      by (simp add: isValidMAC_def)
  qed
  ultimately show ?thesis by (rule conjI)
qed

theorem isValidMAC_mixed_separators_witness:
  "hex_pair ''a0'' \<and> hex_pair ''B1'' \<and> hex_pair ''c2'' \<and> hex_pair ''D3'' \<and> hex_pair ''e4'' \<and>
   hex_pair ''F5'' \<and> is_sep CHR ''-'' \<and> is_sep CHR '':'' \<and>
   isValidMAC ''a0-B1:c2:D3-e4-F5''"
proof -
  have h: "hex_pair ''a0''" "hex_pair ''B1''" "hex_pair ''c2''" "hex_pair ''D3''" "hex_pair ''e4''"
    "hex_pair ''F5''" "is_sep CHR ''-''" "is_sep CHR '':''"
    by (simp_all add: hex_pair_def is_hex_def is_sep_def)
  have "isValidMAC (''a0'' @ [CHR ''-''] @ ''B1'' @ [CHR '':''] @ ''c2'' @ [CHR '':''] @ ''D3''
          @ [CHR ''-''] @ ''e4'' @ [CHR ''-''] @ ''F5'')"
    using isValidMAC_mixed_separators [THEN conjunct2, rule_format,
        of "''a0''" "''B1''" "''c2''" "''D3''" "''e4''" "''F5''"
           "CHR ''-''" "CHR '':''" "CHR '':''" "CHR ''-''" "CHR ''-''"] h
    by (simp only: simp_thms)
  then show ?thesis using h by simp
qed

section \<open>Netmask conversion: proofs\<close>

lemma split_on_no_sep: "sep \<notin> set p \<Longrightarrow> split_on sep p = [p]"
  by (induction p) auto

lemma split_on_append: "sep \<notin> set p \<Longrightarrow> split_on sep (p @ sep # rest) = p # split_on sep rest"
  by (induction p) auto

lemma match_digits_1_3_Some:
  assumes "match_digits_1_3 s = Some r"
  shows "\<exists>p. s = p @ r \<and> all_digits p \<and> length p \<le> 3"
proof -
  define p where "p = takeWhile is_digit (take 3 s)"
  from assms have n: "length p \<noteq> 0" and r: "r = drop (length p) s"
    by (auto simp: match_digits_1_3_def p_def Let_def split: if_splits)
  have len: "length p \<le> 3"
    unfolding p_def using length_takeWhile_le [of is_digit "take 3 s"] by simp
  have "p = take (length p) (take 3 s)"
    unfolding p_def by (rule takeWhile_eq_take)
  then have "p = take (length p) s" using len by (simp add: min_def)
  then have "s = p @ r" using r by (metis append_take_drop_id)
  moreover have "list_all is_digit p"
    unfolding p_def list_all_iff using set_takeWhileD by fastforce
  ultimately show ?thesis using n len by (auto simp: all_digits_def)
qed

lemma match_dot_Some: "match_dot s = Some r \<longleftrightarrow> s = CHR ''.'' # r"
  by (auto simp: match_dot_def split: list.splits)

lemma match_octet_dot_Some:
  assumes "match_octet_dot s = Some r"
  shows "\<exists>p. s = p @ CHR ''.'' # r \<and> all_digits p \<and> length p \<le> 3"
proof -
  from assms obtain r' where 1: "match_digits_1_3 s = Some r'" and 2: "match_dot r' = Some r"
    by (auto simp: match_octet_dot_def split: option.splits)
  from match_digits_1_3_Some [OF 1] 2 show ?thesis
    by (auto simp: match_dot_Some)
qed

lemma dotted_quad_reD:
  assumes "dotted_quad_re s"
  shows "\<exists>a b c d. all_digits a \<and> all_digits b \<and> all_digits c \<and> all_digits d \<and>
           s = a @ CHR ''.'' # b @ CHR ''.'' # c @ CHR ''.'' # d"
proof -
  from assms obtain r1 where 1: "match_octet_dot s = Some r1"
    by (cases "match_octet_dot s") (auto simp: dotted_quad_re_def)
  from assms 1 obtain r2 where 2: "match_octet_dot r1 = Some r2"
    by (cases "match_octet_dot r1") (auto simp: dotted_quad_re_def)
  from assms 1 2 obtain r3 where 3: "match_octet_dot r2 = Some r3"
    by (cases "match_octet_dot r2") (auto simp: dotted_quad_re_def)
  from assms 1 2 3 have 4: "match_digits_1_3 r3 = Some []"
    by (cases "match_digits_1_3 r3") (auto simp: dotted_quad_re_def)
  from match_octet_dot_Some [OF 1] obtain a where a: "s = a @ CHR ''.'' # r1" "all_digits a" by blast
  from match_octet_dot_Some [OF 2] obtain b where b: "r1 = b @ CHR ''.'' # r2" "all_digits b" by blast
  from match_octet_dot_Some [OF 3] obtain c where c: "r2 = c @ CHR ''.'' # r3" "all_digits c" by blast
  from match_digits_1_3_Some [OF 4] have d: "all_digits r3" by simp
  have "s = a @ CHR ''.'' # b @ CHR ''.'' # c @ CHR ''.'' # r3"
    using a(1) b(1) c(1) by (simp only:)
  with a(2) b(2) c(2) d have "all_digits a \<and> all_digits b \<and> all_digits c \<and> all_digits r3 \<and>
           s = a @ CHR ''.'' # b @ CHR ''.'' # c @ CHR ''.'' # r3"
    by (intro conjI)
  then show ?thesis
    by (rule_tac x = a in exI, rule_tac x = b in exI, rule_tac x = c in exI, rule_tac x = r3 in exI)
qed

lemma not_digit_dot: "\<not> is_digit CHR ''.''"
  by (simp add: is_digit_def)

lemma dot_not_digit: "all_digits p \<Longrightarrow> CHR ''.'' \<notin> set p"
  using not_digit_dot by (auto simp: all_digits_def list_all_iff)

lemma split_on_quad:
  assumes "all_digits a" "all_digits b" "all_digits c" "all_digits d"
  shows "split_on CHR ''.'' (a @ CHR ''.'' # b @ CHR ''.'' # c @ CHR ''.'' # d) = [a, b, c, d]"
  using assms by (simp add: split_on_append split_on_no_sep dot_not_digit)

lemma foldl_bin: "foldl (\<lambda>n c. 2 * n + (if c = CHR ''1'' then 1 else 0)) (a::nat) s
   = a * 2 ^ length s + foldl (\<lambda>n c. 2 * n + (if c = CHR ''1'' then 1 else 0)) 0 s"
proof (induction s arbitrary: a)
  case Nil
  then show ?case by simp
next
  case (Cons c s)
  let ?f = "\<lambda>(n::nat) c. 2 * n + (if c = CHR ''1'' then 1 else 0)"
  let ?b = "(if c = CHR ''1'' then 1 else 0) :: nat"
  have "foldl ?f a (c # s) = foldl ?f (2 * a + ?b) s" by simp
  also have "\<dots> = (2 * a + ?b) * 2 ^ length s + foldl ?f 0 s" by (rule Cons.IH)
  finally have l: "foldl ?f a (c # s) = (2 * a + ?b) * 2 ^ length s + foldl ?f 0 s" .
  have "foldl ?f 0 (c # s) = foldl ?f ?b s" by simp
  also have "\<dots> = ?b * 2 ^ length s + foldl ?f 0 s" by (rule Cons.IH)
  finally have r: "foldl ?f 0 (c # s) = ?b * 2 ^ length s + foldl ?f 0 s" .
  show ?case unfolding l r by (simp add: algebra_simps)
qed

lemma bin_val_append: "bin_val (xs @ ys) = bin_val xs * 2 ^ length ys + bin_val ys"
  unfolding bin_val_def foldl_append by (rule foldl_bin)

lemma bin_val_simps [simp]: "bin_val [] = 0" "bin_val [c] = (if c = CHR ''1'' then 1 else 0)"
  by (simp_all add: bin_val_def)

lemma bin_val_zeros [simp]: "bin_val (replicate k CHR ''0'') = 0"
  by (induction k) (simp_all add: bin_val_append [of "[c]" for c, simplified])

lemma bin_val_toString2: "bin_val (toString2 n) = n"
proof (induction n rule: toString2.induct)
  case (1 n)
  show ?case
  proof (cases "n < 2")
    case True
    then show ?thesis by (subst toString2.simps) auto
  next
    case False
    then have "bin_val (toString2 n) = bin_val (toString2 (n div 2)) * 2 + n mod 2"
      by (subst toString2.simps) (simp add: bin_val_append)
    then show ?thesis using "1.IH" False by simp
  qed
qed

lemma bitstring_toString2: "bitstring (toString2 n)"
proof (induction n rule: toString2.induct)
  case (1 n)
  then show ?case
    by (subst toString2.simps) (auto simp: bitstring_def)
qed

lemma length_toString2: "n < 2 ^ k \<Longrightarrow> 0 < k \<Longrightarrow> length (toString2 n) \<le> k"
proof (induction n arbitrary: k rule: toString2.induct)
  case (1 n)
  show ?case
  proof (cases "n < 2")
    case True
    then show ?thesis using "1.prems" by (subst toString2.simps) auto
  next
    case False
    then obtain k' where k: "k = Suc k'" using "1.prems" by (cases k) auto
    from False "1.prems" k have "0 < k'" by (cases k') auto
    moreover from "1.prems" k have "n div 2 < 2 ^ k'" by auto
    ultimately have "length (toString2 (n div 2)) \<le> k'" using "1.IH" False by simp
    then show ?thesis using False k by (subst toString2.simps) simp
  qed
qed

lemma octet_bits:
  assumes "v \<le> 255"
  shows "length (padStart 8 CHR ''0'' (toString2 v)) = 8"
    and "bitstring (padStart 8 CHR ''0'' (toString2 v))"
    and "bin_val (padStart 8 CHR ''0'' (toString2 v)) = v"
proof -
  have "v < 2 ^ 8" using assms by simp
  then have "length (toString2 v) \<le> 8" by (rule length_toString2) simp
  then show "length (padStart 8 CHR ''0'' (toString2 v)) = 8"
    by (simp add: padStart_def)
  show "bitstring (padStart 8 CHR ''0'' (toString2 v))"
    using bitstring_toString2 [of v] by (auto simp: padStart_def bitstring_def)
  show "bin_val (padStart 8 CHR ''0'' (toString2 v)) = v"
    by (simp add: padStart_def bin_val_append bin_val_toString2)
qed

lemma bitstring_nth_bit:
  "bitstring bs \<Longrightarrow> j < length bs \<Longrightarrow>
     (bs ! j = CHR ''1'') = bit (bin_val bs) (length bs - 1 - j)"
proof (induction bs arbitrary: j rule: rev_induct)
  case Nil
  then show ?case by simp
next
  case (snoc c xs)
  have bs: "bitstring xs" using snoc.prems by (simp add: bitstring_def)
  have v: "bin_val (xs @ [c]) = 2 * bin_val xs + (if c = CHR ''1'' then 1 else 0)"
    by (simp add: bin_val_append)
  show ?case
  proof (cases "j = length xs")
    case True
    then show ?thesis by (simp add: v bit_0)
  next
    case False
    then have j: "j < length xs" using snoc.prems by simp
    then have "length (xs @ [c]) - 1 - j = Suc (length xs - 1 - j)" by simp
    moreover have "(2 * bin_val xs + (if c = CHR ''1'' then 1 else 0)) div 2 = bin_val xs"
      by simp
    ultimately have "bit (bin_val (xs @ [c])) (length (xs @ [c]) - 1 - j)
        = bit (bin_val xs) (length xs - 1 - j)"
      by (simp only: v bit_Suc)
    then show ?thesis using snoc.IH [OF bs j] j by (simp add: nth_append)
  qed
qed

lemma takeWhile_ones_zeros:
  "takeWhile (\<lambda>c. c = CHR ''1'') (replicate n CHR ''1'' @ replicate m CHR ''0'') = replicate n CHR ''1''"
  by (induction n) (simp_all add: takeWhile_replicate)

lemma leading_ones_check_iff:
  assumes bs: "bitstring bs" and len: "length bs = 32"
  shows "leading_ones_check bs = Some n \<longleftrightarrow> mask_bits_contiguous (bin_val bs) n"
proof
  assume "leading_ones_check bs = Some n"
  then have n: "n = length (takeWhile (\<lambda>c. c = CHR ''1'') bs)"
    and eq: "bs = replicate n CHR ''1'' @ replicate (32 - n) CHR ''0''"
    by (auto simp: leading_ones_check_def Let_def split: if_splits)
  have n32: "n \<le> 32"
    unfolding n using length_takeWhile_le [of _ bs] len by simp
  have "bit (bin_val bs) i = (32 - n \<le> i)" if i: "i < 32" for i
  proof -
    have "bit (bin_val bs) i = (bs ! (31 - i) = CHR ''1'')"
      using bitstring_nth_bit [OF bs, of "31 - i"] i len by simp
    also have "bs ! (31 - i) = (if 31 - i < n then CHR ''1'' else CHR ''0'')"
      by (subst eq) (use i n32 in \<open>simp add: nth_append\<close>)
    finally show ?thesis using i n32 by auto
  qed
  with n32 show "mask_bits_contiguous (bin_val bs) n"
    by (simp add: mask_bits_contiguous_def)
next
  assume "mask_bits_contiguous (bin_val bs) n"
  then have n32: "n \<le> 32" and bits: "\<And>i. i < 32 \<Longrightarrow> bit (bin_val bs) i = (32 - n \<le> i)"
    by (simp_all add: mask_bits_contiguous_def)
  have nth: "bs ! j = (if j < n then CHR ''1'' else CHR ''0'')" if j: "j < 32" for j
  proof -
    have "(bs ! j = CHR ''1'') = bit (bin_val bs) (31 - j)"
      using bitstring_nth_bit [OF bs, of j] j len by simp
    also have "\<dots> = (32 - n \<le> 31 - j)" using bits [of "31 - j"] by simp
    also have "\<dots> = (j < n)" using j n32 by auto
    finally have *: "(bs ! j = CHR ''1'') = (j < n)" .
    have "bs ! j \<in> set bs" using j len by simp
    then have "bs ! j = CHR ''0'' \<or> bs ! j = CHR ''1''" using bs by (auto simp: bitstring_def)
    with * show ?thesis by auto
  qed
  have eq: "bs = replicate n CHR ''1'' @ replicate (32 - n) CHR ''0''"
  proof (rule nth_equalityI)
    show "length bs = length (replicate n CHR ''1'' @ replicate (32 - n) CHR ''0'')"
      using len n32 by simp
    fix j assume "j < length bs"
    then have j: "j < 32" using len by simp
    show "bs ! j = (replicate n CHR ''1'' @ replicate (32 - n) CHR ''0'') ! j"
      using nth [OF j] j n32 by (simp add: nth_append)
  qed
  have "length (takeWhile (\<lambda>c. c = CHR ''1'') bs) = n"
    by (subst eq) (simp add: takeWhile_ones_zeros)
  then show "leading_ones_check bs = Some n"
    using eq by (simp add: leading_ones_check_def Let_def)
qed

lemma netmaskToCIDR_quad:
  assumes "all_digits a" "all_digits b" "all_digits c" "all_digits d"
  shows "netmaskToCIDR (a @ CHR ''.'' # b @ CHR ''.'' # c @ CHR ''.'' # d) =
     (if dec_val a \<le> 255 \<and> dec_val b \<le> 255 \<and> dec_val c \<le> 255 \<and> dec_val d \<le> 255
      then leading_ones_check
             (padStart 8 CHR ''0'' (toString2 (dec_val a)) @ padStart 8 CHR ''0'' (toString2 (dec_val b)) @
              padStart 8 CHR ''0'' (toString2 (dec_val c)) @ padStart 8 CHR ''0'' (toString2 (dec_val d)))
      else None)"
  using assms
  by (auto simp: netmaskToCIDR_def split_on_quad Number_def Let_def leading_ones_check_def)

lemma binary_of_octets:
  assumes "a \<le> 255" "b \<le> 255" "c \<le> 255" "d \<le> 255"
  defines "bs \<equiv> padStart 8 CHR ''0'' (toString2 a) @ padStart 8 CHR ''0'' (toString2 b) @
              padStart 8 CHR ''0'' (toString2 c) @ padStart 8 CHR ''0'' (toString2 d)"
  shows "bitstring bs" and "length bs = 32" and "bin_val bs = ipv4_value [a, b, c, d]"
proof -
  show "bitstring bs"
    using octet_bits(2) [OF assms(1)] octet_bits(2) [OF assms(2)]
      octet_bits(2) [OF assms(3)] octet_bits(2) [OF assms(4)]
    by (simp add: bs_def bitstring_def)
  show "length bs = 32"
    by (simp add: bs_def octet_bits(1) assms(1-4))
  show "bin_val bs = ipv4_value [a, b, c, d]"
    by (simp add: bs_def bin_val_append octet_bits(1,3) assms(1-4) ipv4_value_def)
qed

lemma netmaskToCIDR_dotted_quad:
  assumes "dotted_quad_re nm"
  shows "netmaskToCIDR nm = Some n \<longleftrightarrow>
           (\<exists>v. dotted_quad_value nm = Some v \<and> mask_bits_contiguous v n)"
proof -
  from dotted_quad_reD [OF assms] obtain a b c d where
    dg: "all_digits a" "all_digits b" "all_digits c" "all_digits d" and
    nm: "nm = a @ CHR ''.'' # b @ CHR ''.'' # c @ CHR ''.'' # d"
    by (elim exE conjE)
  have sp: "split_on CHR ''.'' nm = [a, b, c, d]"
    unfolding nm by (rule split_on_quad [OF dg])
  show ?thesis
  proof (cases "dec_val a \<le> 255 \<and> dec_val b \<le> 255 \<and> dec_val c \<le> 255 \<and> dec_val d \<le> 255")
    case False
    then have "netmaskToCIDR nm = None"
      unfolding nm netmaskToCIDR_quad [OF dg] by (rule if_not_P)
    moreover from False have "dotted_quad_value nm = None"
      by (auto simp add: dotted_quad_value_def sp)
    ultimately show ?thesis by simp
  next
    case True
    then have r: "dec_val a \<le> 255" "dec_val b \<le> 255" "dec_val c \<le> 255" "dec_val d \<le> 255"
      by simp_all
    let ?bs = "padStart 8 CHR ''0'' (toString2 (dec_val a)) @ padStart 8 CHR ''0'' (toString2 (dec_val b)) @
              padStart 8 CHR ''0'' (toString2 (dec_val c)) @ padStart 8 CHR ''0'' (toString2 (dec_val d))"
    have 1: "netmaskToCIDR nm = leading_ones_check ?bs"
      unfolding nm using True by (simp add: netmaskToCIDR_quad [OF dg])
    have 2: "dotted_quad_value nm = Some (bin_val ?bs)"
      using r by (simp add: dotted_quad_value_def sp binary_of_octets(3))
    show ?thesis
      unfolding 1 2 using leading_ones_check_iff [OF binary_of_octets(1,2) [OF r]] by simp
  qed
qed

lemma netmask_examples:
  "netmaskToCIDR ''255.255.255.0'' = Some 24"
  "netmaskToCIDR ''255.0.0.0'' = Some 8"
  "netmaskToCIDR ''255.255.255.255'' = Some 32"
  "netmaskToCIDR ''255.0.255.0'' = None"
  by code_simp+

lemma noncontiguous_example:
  "dotted_quad_re ''255.0.255.0''" "\<not> all_digits ''255.0.255.0''"
  by code_simp+

text \<open>
  C2. For a netmask that matches the dotted-quad pattern, netmaskToCIDR returns \<open>n\<close> exactly
  when the four octets are at most 255 and the 32-bit value they denote is \<open>n\<close> one-bits
  followed by zero-bits. 255.255.255.0 gives 24, 255.0.0.0 gives 8, 255.255.255.255 gives 32;
  255.0.255.0 is rejected, buildCIDR returns null for it and the matcher keeps no range for
  the subnet.
\<close>

theorem netmaskToCIDR_contiguous:
  "(dotted_quad_re nm \<longrightarrow>
      (netmaskToCIDR nm = Some n \<longleftrightarrow>
         (\<exists>v. dotted_quad_value nm = Some v \<and> mask_bits_contiguous v n)))
   \<and> netmaskToCIDR ''255.255.255.0'' = Some 24
   \<and> netmaskToCIDR ''255.0.0.0'' = Some 8
   \<and> netmaskToCIDR ''255.255.255.255'' = Some 32
   \<and> netmaskToCIDR ''255.0.255.0'' = None
   \<and> buildCIDR sn ''255.0.255.0'' = None
   \<and> subnets (new_SubnetMatcher [\<lparr>uuid = u, subnet = sn, netmask = ''255.0.255.0''\<rparr>]) = []"
proof -
  have b: "buildCIDR sn ''255.0.255.0'' = None"
    by (simp add: buildCIDR_def netmask_examples noncontiguous_example split: option.splits)
  have "subnets (new_SubnetMatcher [\<lparr>uuid = u, subnet = sn, netmask = ''255.0.255.0''\<rparr>]) = []"
    by (simp add: new_SubnetMatcher_def buildSubnetMap_step_def b)
  with b show ?thesis
    using netmaskToCIDR_dotted_quad [of nm n] netmask_examples by simp
qed

theorem netmaskToCIDR_contiguous_witness:
  "dotted_quad_re ''255.255.240.0'' \<and> netmaskToCIDR ''255.255.240.0'' = Some 20
   \<and> dotted_quad_value ''255.255.240.0'' = Some 4294963200
   \<and> mask_bits_contiguous 4294963200 20"
proof -
  have 1: "dotted_quad_re ''255.255.240.0''" by code_simp
  have 2: "netmaskToCIDR ''255.255.240.0'' = Some 20" by code_simp
  have 3: "dotted_quad_value ''255.255.240.0'' = Some 4294963200"
    by (simp add: dotted_quad_value_def dec_val_def digit_val_def ipv4_value_def)
  from netmaskToCIDR_contiguous [of "''255.255.240.0''" 20] 1 2
  have "\<exists>v. dotted_quad_value ''255.255.240.0'' = Some v \<and> mask_bits_contiguous v 20"
    by (simp only: simp_thms)
  with 3 have "mask_bits_contiguous 4294963200 20" by simp
  with 1 2 3 show ?thesis by simp
qed

section \<open>IPv4 validity: proofs\<close>

lemma split_on_nonempty: "split_on sep s \<noteq> []"
  by (induction s) (auto split: list.splits)

lemma join_split_on: "join_with sep (split_on sep s) = s"
proof (induction s)
  case Nil
  then show ?case by simp
next
  case (Cons c s)
  obtain p ps where ps: "split_on sep s = p # ps"
    using split_on_nonempty [of sep s] by (cases "split_on sep s") auto
  show ?case
    using Cons.IH by (cases ps) (auto simp: ps)
qed

lemma IPv4_SomeD:
  assumes "IPv4 s = Some v"
  shows "\<exists>a b c d. split_on CHR ''.'' s = [a, b, c, d] \<and>
           all_digits a \<and> all_digits b \<and> all_digits c \<and> all_digits d \<and>
           dec_val a \<le> 255 \<and> dec_val b \<le> 255 \<and> dec_val c \<le> 255 \<and> dec_val d \<le> 255 \<and>
           v = ipv4_value [dec_val a, dec_val b, dec_val c, dec_val d]"
proof -
  from assms have len: "length (split_on CHR ''.'' s) = 4"
    and dg: "list_all all_digits (split_on CHR ''.'' s)"
    and rg: "list_all (\<lambda>p. dec_val p \<le> 255) (split_on CHR ''.'' s)"
    and v: "v = ipv4_value (map dec_val (split_on CHR ''.'' s))"
    by (auto simp: IPv4_def Let_def split: if_splits)
  from len obtain a b c d where sp: "split_on CHR ''.'' s = [a, b, c, d]"
    by (auto simp: length_Suc_conv eval_nat_numeral)
  show ?thesis
    using dg rg v unfolding sp by simp
qed

lemma IPv4_quad:
  assumes "all_digits a" "all_digits b" "all_digits c" "all_digits d"
  shows "IPv4 (a @ CHR ''.'' # b @ CHR ''.'' # c @ CHR ''.'' # d) =
     (if dec_val a \<le> 255 \<and> dec_val b \<le> 255 \<and> dec_val c \<le> 255 \<and> dec_val d \<le> 255
      then Some (ipv4_value [dec_val a, dec_val b, dec_val c, dec_val d]) else None)"
  using assms by (simp add: IPv4_def split_on_quad)

lemma isValidIP_iff: "isValidIP s \<longleftrightarrow> ipv4_spec s"
proof
  assume "isValidIP s"
  then obtain v where "IPv4 s = Some v"
    by (auto simp: isValidIP_def split: option.splits)
  from IPv4_SomeD [OF this] obtain a b c d where
    sp: "split_on CHR ''.'' s = [a, b, c, d]" and
    ok: "all_digits a" "all_digits b" "all_digits c" "all_digits d"
      "dec_val a \<le> 255" "dec_val b \<le> 255" "dec_val c \<le> 255" "dec_val d \<le> 255"
    by (elim exE conjE)
  have "s = join_with CHR ''.'' [a, b, c, d]"
    using join_split_on [of "CHR ''.''" s] by (simp only: sp)
  then have "s = a @ CHR ''.'' # b @ CHR ''.'' # c @ CHR ''.'' # d" by simp
  with ok have "all_digits a \<and> all_digits b \<and> all_digits c \<and> all_digits d \<and>
        dec_val a \<le> 255 \<and> dec_val b \<le> 255 \<and> dec_val c \<le> 255 \<and> dec_val d \<le> 255 \<and>
        s = a @ CHR ''.'' # b @ CHR ''.'' # c @ CHR ''.'' # d"
    by (intro conjI)
  then show "ipv4_spec s"
    unfolding ipv4_spec_def
    by (rule_tac x = a in exI, rule_tac x = b in exI, rule_tac x = c in exI, rule_tac x = d in exI)
next
  assume "ipv4_spec s"
  then obtain a b c d where
    ok: "all_digits a" "all_digits b" "all_digits c" "all_digits d" and
    rg: "dec_val a \<le> 255 \<and> dec_val b \<le> 255 \<and> dec_val c \<le> 255 \<and> dec_val d \<le> 255" and
    s: "s = a @ CHR ''.'' # b @ CHR ''.'' # c @ CHR ''.'' # d"
    unfolding ipv4_spec_def by (elim exE conjE) (rule that, simp_all)
  show "isValidIP s"
    unfolding isValidIP_def s IPv4_quad [OF ok] using rg by simp
qed

lemma isValidIP_examples:
  "isValidIP ''192.168.1.1''" "isValidIP ''10.0.0.1''" "isValidIP ''255.255.255.255''"
  "isValidIP ''0.0.0.0''" "\<not> isValidIP ''256.1.1.1''" "\<not> isValidIP ''192.168.1''"
  "\<not> isValidIP ''not-an-ip''" "\<not> isValidIP ''''"
  by (simp_all add: isValidIP_def IPv4_def all_digits_def is_digit_def dec_val_def digit_val_def)

text \<open>
  C9. isValidIP accepts a string exactly when it consists of four decimal octets separated by
  dots, each of value at most 255, with nothing before or after. The constructor that decides
  it belongs to ip-num and is modelled from the spec; the eight strings are those of the
  repository's own test of isValidIP.
\<close>

theorem isValidIP_four_octets:
  "(isValidIP s \<longleftrightarrow> ipv4_spec s)
   \<and> isValidIP ''192.168.1.1'' \<and> isValidIP ''10.0.0.1'' \<and> isValidIP ''255.255.255.255''
   \<and> isValidIP ''0.0.0.0'' \<and> \<not> isValidIP ''256.1.1.1'' \<and> \<not> isValidIP ''192.168.1''
   \<and> \<not> isValidIP ''not-an-ip'' \<and> \<not> isValidIP ''''"
  using isValidIP_iff [of s] isValidIP_examples by (intro conjI)

theorem isValidIP_four_octets_witness:
  "isValidIP ''192.168.1.1'' \<and> ipv4_spec ''192.168.1.1''"
  using isValidIP_four_octets [of "''192.168.1.1''"] by blast

section \<open>Subnet matching: proofs\<close>

lemma map_set_fresh: "k \<notin> fst ` set es \<Longrightarrow> map_set k v es = es @ [(k, v)]"
  by (induction es) auto

lemma set_map_set: "set (map_set k v es) \<subseteq> insert (k, v) (set es)"
  by (induction es) (auto split: if_splits)

lemma map_fst_map_set:
  "map fst (map_set k v es) = (if k \<in> set (map fst es) then map fst es else map fst es @ [k])"
proof (induction es)
  case Nil
  then show ?case by simp
next
  case (Cons e es)
  obtain k' v' where e: "e = (k', v')" by (cases e)
  show ?case
  proof (cases "k' = k")
    case True
    then show ?thesis by (simp add: e)
  next
    case False
    then show ?thesis using Cons.IH by (simp add: e)
  qed
qed

lemma length_map_set:
  "length (map_set k v es) = (if k \<in> set (map fst es) then length es else Suc (length es))"
  using arg_cong [OF map_fst_map_set [of k v es], of length] by (simp split: if_splits)

lemma buildSubnetMap_step_cases:
  "buildSubnetMap_step sn m =
     (if retained sn
      then m\<lparr>subnets := map_set (uuid sn) (the (range_of sn)) (subnets m),
             subnetMetadata := map_set (uuid sn) sn (subnetMetadata m)\<rparr>
      else m)"
  by (auto simp: buildSubnetMap_step_def retained_def range_of_def split: option.splits)

lemma buildSubnetMap_distinct:
  "distinct (map fst (subnets m) @ map uuid (filter retained sns)) \<Longrightarrow>
   subnets (buildSubnetMap sns m) =
     subnets m @ map (\<lambda>sn. (uuid sn, the (range_of sn))) (filter retained sns)"
proof (induction sns arbitrary: m)
  case Nil
  then show ?case by simp
next
  case (Cons sn sns)
  show ?case
  proof (cases "retained sn")
    case False
    then show ?thesis using Cons by (simp add: buildSubnetMap_step_cases)
  next
    case True
    let ?m = "buildSubnetMap_step sn m"
    from Cons.prems True have fresh: "uuid sn \<notin> fst ` set (subnets m)"
      by auto
    then have sm: "subnets ?m = subnets m @ [(uuid sn, the (range_of sn))]"
      using True by (simp add: buildSubnetMap_step_cases map_set_fresh)
    from Cons.prems True
    have "distinct (map fst (subnets ?m) @ map uuid (filter retained sns))"
      unfolding sm by auto
    from Cons.IH [OF this] show ?thesis
      using True by (simp add: sm)
  qed
qed

lemma first_containing_entries:
  "first_containing (map (\<lambda>sn. (uuid sn, the (range_of sn))) (filter retained sns)) ip
     = map_option uuid (find (contains_ip ip) sns)"
  by (induction sns) (auto simp: retained_def contains_ip_def split: option.splits)

lemma first_containing_None:
  "first_containing es ip = None \<longleftrightarrow> (\<forall>e\<in>set es. \<not> contains (snd e) ip)"
proof (induction es)
  case Nil
  then show ?case by simp
next
  case (Cons e es)
  obtain u r where e: "e = (u, r)" by (cases e)
  show ?case using Cons.IH by (simp add: e)
qed

lemma first_containing_Some:
  "first_containing es ip = Some u \<Longrightarrow> \<exists>r. (u, r) \<in> set es \<and> contains r ip"
  by (induction es) (auto split: if_splits)

lemma buildSubnetMap_entries:
  "(u, r) \<in> set (subnets (buildSubnetMap sns m)) \<Longrightarrow>
     (u, r) \<in> set (subnets m) \<or> (\<exists>sn\<in>set sns. uuid sn = u \<and> range_of sn = Some r)"
proof (induction sns arbitrary: m)
  case Nil
  then show ?case by simp
next
  case (Cons sn sns)
  from Cons.IH [OF Cons.prems [simplified]]
  consider "(u, r) \<in> set (subnets (buildSubnetMap_step sn m))"
    | "\<exists>x\<in>set sns. uuid x = u \<and> range_of x = Some r" by blast
  then show ?case
  proof cases
    case 1
    show ?thesis
    proof (cases "retained sn")
      case False
      then show ?thesis using 1 by (simp add: buildSubnetMap_step_cases)
    next
      case True
      then have "(u, r) \<in> insert (uuid sn, the (range_of sn)) (set (subnets m))"
        using 1 set_map_set [of "uuid sn" "the (range_of sn)" "subnets m"]
        by (auto simp: buildSubnetMap_step_cases)
      then show ?thesis using True by (auto simp: retained_def)
    qed
  next
    case 2
    then show ?thesis by auto
  qed
qed

lemma new_SubnetMatcher_entries:
  "(u, r) \<in> set (subnets (new_SubnetMatcher sns)) \<Longrightarrow>
     \<exists>sn\<in>set sns. uuid sn = u \<and> range_of sn = Some r"
  unfolding new_SubnetMatcher_def using buildSubnetMap_entries [of u r sns] by fastforce

lemma buildCIDR_SomeD:
  assumes "buildCIDR b nm = Some r"
  shows "IPv4 b = Some (range_ip r) \<and> range_prefix r \<le> 32"
  using assms
  by (auto simp: buildCIDR_def fromCidr_def Let_def split: option.splits if_splits)

lemma getFirst_le: "getFirst r \<le> range_ip r"
  by (simp add: getFirst_def)

lemma range_ip_le_getLast: "range_ip r \<le> getLast r"
proof -
  let ?k = "(2::nat) ^ (32 - range_prefix r)"
  have "range_ip r = range_ip r div ?k * ?k + range_ip r mod ?k"
    by (rule div_mult_mod_eq [symmetric])
  moreover have "range_ip r mod ?k < ?k"
    by (rule mod_less_divisor) simp
  then have "range_ip r mod ?k \<le> ?k - 1"
    by linarith
  ultimately show ?thesis unfolding getLast_def getFirst_def by linarith
qed

lemma contains_interval: "{a. contains r a} = {getFirst r .. getLast r}"
  by (auto simp: contains_def)

lemma card_contains: "card {a. contains r a} = 2 ^ (32 - range_prefix r)"
  unfolding contains_interval by (simp add: getLast_def)

lemma getFirst_le_getLast: "getFirst r \<le> getLast r"
  unfolding getLast_def by (rule le_add1)

lemma contains_ends: "contains r (getFirst r)" "contains r (getLast r)" "contains r (range_ip r)"
  using getFirst_le_getLast [of r] getFirst_le [of r] range_ip_le_getLast [of r]
  by (simp_all add: contains_def)

lemma contains_host: "range_prefix r = 32 \<Longrightarrow> contains r a \<longleftrightarrow> a = range_ip r"
  by (auto simp: contains_def getLast_def getFirst_def)

lemma IPv4_10_0_0_5: "IPv4 ''10.0.0.5'' = Some 167772165"
  by (simp add: IPv4_def all_digits_def is_digit_def dec_val_def digit_val_def ipv4_value_def)

lemma IPv4_10_0_0_0: "IPv4 ''10.0.0.0'' = Some 167772160"
  by (simp add: IPv4_def all_digits_def is_digit_def dec_val_def digit_val_def ipv4_value_def)

lemma IPv4_192_168_0_0: "IPv4 ''192.168.0.0'' = Some 3232235520"
  by (simp add: IPv4_def all_digits_def is_digit_def dec_val_def digit_val_def ipv4_value_def)

lemma prefix_digits:
  "all_digits ''8''" "dec_val ''8'' = 8" "all_digits ''16''" "dec_val ''16'' = 16"
  "all_digits ''32''" "dec_val ''32'' = 32"
  by (simp_all add: all_digits_def is_digit_def dec_val_def digit_val_def)

lemma buildCIDR_examples:
  "buildCIDR ''10.0.0.0'' ''8'' = Some \<lparr>range_ip = 167772160, range_prefix = 8\<rparr>"
  "buildCIDR ''10.0.0.0'' ''16'' = Some \<lparr>range_ip = 167772160, range_prefix = 16\<rparr>"
  "buildCIDR ''192.168.0.0'' ''16'' = Some \<lparr>range_ip = 3232235520, range_prefix = 16\<rparr>"
  by (simp_all add: buildCIDR_def fromCidr_def IPv4_10_0_0_0 IPv4_192_168_0_0 prefix_digits)

lemma contains_examples:
  "contains \<lparr>range_ip = 167772160, range_prefix = 8\<rparr> 167772165"
  "contains \<lparr>range_ip = 167772160, range_prefix = 16\<rparr> 167772165"
  "\<not> contains \<lparr>range_ip = 3232235520, range_prefix = 16\<rparr> 167772165"
  by (simp_all add: contains_def getFirst_def getLast_def)

lemma buildCIDR_prefix_digits:
  "all_digits nm \<Longrightarrow> buildCIDR b nm = Some r \<Longrightarrow> range_prefix r = dec_val nm"
  by (auto simp: buildCIDR_def fromCidr_def Let_def split: option.splits if_splits)

lemma buildCIDR_host:
  "IPv4 h = Some hv \<Longrightarrow> buildCIDR h ''32'' = Some \<lparr>range_ip = hv, range_prefix = 32\<rparr>"
  by (simp add: buildCIDR_def fromCidr_def prefix_digits)

lemma findSubnetForIP_Some_iff:
  assumes "IPv4 s = Some ip"
  shows "(\<exists>u. findSubnetForIP m s = Some u) \<longleftrightarrow> (\<exists>e\<in>set (subnets m). contains (snd e) ip)"
proof -
  have "(\<exists>u. findSubnetForIP m s = Some u) \<longleftrightarrow> first_containing (subnets m) ip \<noteq> None"
    using assms by (simp add: findSubnetForIP_def)
  then show ?thesis by (simp add: first_containing_None)
qed

lemma IPv4_192_168_1_100: "IPv4 ''192.168.1.100'' = Some 3232235876"
  by (simp add: IPv4_def all_digits_def is_digit_def dec_val_def digit_val_def ipv4_value_def)

lemma IPv4_192_168_1_101: "IPv4 ''192.168.1.101'' = Some 3232235877"
  by (simp add: IPv4_def all_digits_def is_digit_def dec_val_def digit_val_def ipv4_value_def)


text \<open>
  The model of ip-num against the repository's own tests of SubnetMatcher: prefix and dotted
  netmask notation, the first and the last address of a range, and addresses outside.
\<close>

lemmas eval_defs = IPv4_def all_digits_def is_digit_def dec_val_def digit_val_def ipv4_value_def
  buildCIDR_def fromCidr_def new_SubnetMatcher_def buildSubnetMap_step_def findSubnetForIP_def
  contains_def getFirst_def getLast_def

lemma dotted_quad_re_examples:
  "dotted_quad_re ''255.255.255.0''" "dotted_quad_re ''255.0.0.0''"
  by code_simp+

lemma SubnetMatcher_tests:
  "findSubnetForIP (new_SubnetMatcher
      [\<lparr>uuid = ''uuid-1'', subnet = ''192.168.1.0'', netmask = ''24''\<rparr>,
       \<lparr>uuid = ''uuid-2'', subnet = ''10.0.0.0'', netmask = ''8''\<rparr>]) ''192.168.1.254'' = Some ''uuid-1''"
  "findSubnetForIP (new_SubnetMatcher
      [\<lparr>uuid = ''uuid-1'', subnet = ''192.168.1.0'', netmask = ''24''\<rparr>,
       \<lparr>uuid = ''uuid-2'', subnet = ''10.0.0.0'', netmask = ''8''\<rparr>]) ''10.255.255.255'' = Some ''uuid-2''"
  "findSubnetForIP (new_SubnetMatcher
      [\<lparr>uuid = ''uuid-1'', subnet = ''192.168.1.0'', netmask = ''24''\<rparr>]) ''192.168.2.1'' = None"
  "findSubnetForIP (new_SubnetMatcher
      [\<lparr>uuid = ''uuid-1'', subnet = ''192.168.1.0'', netmask = ''255.255.255.0''\<rparr>,
       \<lparr>uuid = ''uuid-2'', subnet = ''10.0.0.0'', netmask = ''255.0.0.0''\<rparr>]) ''10.5.10.20'' = Some ''uuid-2''"
  "findSubnetForIP (new_SubnetMatcher
      [\<lparr>uuid = ''uuid-1'', subnet = ''192.168.0.0'', netmask = ''16''\<rparr>]) ''192.168.255.255'' = Some ''uuid-1''"
  "findSubnetForIP (new_SubnetMatcher
      [\<lparr>uuid = ''uuid-1'', subnet = ''192.168.0.0'', netmask = ''16''\<rparr>]) ''192.169.1.1'' = None"
  by (simp_all add: eval_defs netmask_examples dotted_quad_re_examples)

text \<open>
  C1, as amended. When the retained records have pairwise distinct ids, the entries of the
  map are the retained records in the order of the input list, and for every valid address
  findSubnetForIP returns the id of the first record in that order whose range contains the
  address.
\<close>

theorem findSubnetForIP_first_match:
  assumes "distinct (map uuid (filter retained sns))" and "IPv4 s = Some ip"
  shows "findSubnetForIP (new_SubnetMatcher sns) s = map_option uuid (first_in_input_order sns ip)
    \<and> subnets (new_SubnetMatcher sns) = map (\<lambda>sn. (uuid sn, the (range_of sn))) (filter retained sns)"
proof -
  have sm: "subnets (new_SubnetMatcher sns)
      = map (\<lambda>sn. (uuid sn, the (range_of sn))) (filter retained sns)"
    unfolding new_SubnetMatcher_def
    using buildSubnetMap_distinct [of "\<lparr>subnets = [], subnetMetadata = []\<rparr>" sns] assms(1)
    by simp
  then show ?thesis
    using assms(2)
    by (simp add: findSubnetForIP_def first_in_input_order_def first_containing_entries)
qed

theorem findSubnetForIP_first_match_witness:
  "distinct (map uuid (filter retained
       [\<lparr>uuid = ''a'', subnet = ''10.0.0.0'', netmask = ''8''\<rparr>,
        \<lparr>uuid = ''b'', subnet = ''10.0.0.0'', netmask = ''16''\<rparr>]))
   \<and> IPv4 ''10.0.0.5'' = Some 167772165
   \<and> contains_ip 167772165 \<lparr>uuid = ''a'', subnet = ''10.0.0.0'', netmask = ''8''\<rparr>
   \<and> contains_ip 167772165 \<lparr>uuid = ''b'', subnet = ''10.0.0.0'', netmask = ''16''\<rparr>
   \<and> findSubnetForIP (new_SubnetMatcher
       [\<lparr>uuid = ''a'', subnet = ''10.0.0.0'', netmask = ''8''\<rparr>,
        \<lparr>uuid = ''b'', subnet = ''10.0.0.0'', netmask = ''16''\<rparr>]) ''10.0.0.5'' = Some ''a''"
proof -
  let ?sns = "[\<lparr>uuid = ''a'', subnet = ''10.0.0.0'', netmask = ''8''\<rparr>,
        \<lparr>uuid = ''b'', subnet = ''10.0.0.0'', netmask = ''16''\<rparr>]"
  have d: "distinct (map uuid (filter retained ?sns))"
    by (simp add: retained_def range_of_def buildCIDR_examples)
  have c: "contains_ip 167772165 \<lparr>uuid = ''a'', subnet = ''10.0.0.0'', netmask = ''8''\<rparr>"
    "contains_ip 167772165 \<lparr>uuid = ''b'', subnet = ''10.0.0.0'', netmask = ''16''\<rparr>"
    by (simp_all add: contains_ip_def range_of_def buildCIDR_examples contains_examples)
  have "findSubnetForIP (new_SubnetMatcher ?sns) ''10.0.0.5''
      = map_option uuid (first_in_input_order ?sns 167772165)"
    using findSubnetForIP_first_match [OF d IPv4_10_0_0_5] by (rule conjunct1)
  also have "\<dots> = Some ''a''"
    by (simp add: first_in_input_order_def c)
  finally show ?thesis using d c IPv4_10_0_0_5 by simp
qed


text \<open>
  C1 as stated fails when two retained records share an id: \<^verbatim>\<open>Map.set\<close> on the id that
  is already present keeps the position of the first record and stores the range of the
  later one. Below, the third record reuses the id of the first; 10.0.0.5 lies in both
  retained ranges; the range built third is tested first and its id a is returned, while the
  first record in input order whose range contains the address has id b.
\<close>

theorem findSubnetForIP_duplicate_id_counterexample:
  "IPv4 ''10.0.0.5'' = Some 167772165
   \<and> subnets (new_SubnetMatcher
       [\<lparr>uuid = ''a'', subnet = ''192.168.0.0'', netmask = ''16''\<rparr>,
        \<lparr>uuid = ''b'', subnet = ''10.0.0.0'', netmask = ''8''\<rparr>,
        \<lparr>uuid = ''a'', subnet = ''10.0.0.0'', netmask = ''16''\<rparr>])
      = [(''a'', \<lparr>range_ip = 167772160, range_prefix = 16\<rparr>),
         (''b'', \<lparr>range_ip = 167772160, range_prefix = 8\<rparr>)]
   \<and> contains \<lparr>range_ip = 167772160, range_prefix = 16\<rparr> 167772165
   \<and> contains \<lparr>range_ip = 167772160, range_prefix = 8\<rparr> 167772165
   \<and> findSubnetForIP (new_SubnetMatcher
       [\<lparr>uuid = ''a'', subnet = ''192.168.0.0'', netmask = ''16''\<rparr>,
        \<lparr>uuid = ''b'', subnet = ''10.0.0.0'', netmask = ''8''\<rparr>,
        \<lparr>uuid = ''a'', subnet = ''10.0.0.0'', netmask = ''16''\<rparr>]) ''10.0.0.5'' = Some ''a''
   \<and> map_option uuid (first_in_input_order
       [\<lparr>uuid = ''a'', subnet = ''192.168.0.0'', netmask = ''16''\<rparr>,
        \<lparr>uuid = ''b'', subnet = ''10.0.0.0'', netmask = ''8''\<rparr>,
        \<lparr>uuid = ''a'', subnet = ''10.0.0.0'', netmask = ''16''\<rparr>] 167772165) = Some ''b''"
proof -
  let ?sns = "[\<lparr>uuid = ''a'', subnet = ''192.168.0.0'', netmask = ''16''\<rparr>,
        \<lparr>uuid = ''b'', subnet = ''10.0.0.0'', netmask = ''8''\<rparr>,
        \<lparr>uuid = ''a'', subnet = ''10.0.0.0'', netmask = ''16''\<rparr>]"
  have sm: "subnets (new_SubnetMatcher ?sns)
      = [(''a'', \<lparr>range_ip = 167772160, range_prefix = 16\<rparr>),
         (''b'', \<lparr>range_ip = 167772160, range_prefix = 8\<rparr>)]"
    by (simp add: new_SubnetMatcher_def buildSubnetMap_step_def buildCIDR_examples)
  have f: "findSubnetForIP (new_SubnetMatcher ?sns) ''10.0.0.5'' = Some ''a''"
    by (simp add: findSubnetForIP_def IPv4_10_0_0_5 sm contains_examples)
  have g: "map_option uuid (first_in_input_order ?sns 167772165) = Some ''b''"
    by (simp add: first_in_input_order_def contains_ip_def range_of_def buildCIDR_examples
        contains_examples)
  show ?thesis
    using IPv4_10_0_0_5 sm f g contains_examples by simp
qed

lemma dotted_quad_not_digits: "dotted_quad_re nm \<Longrightarrow> \<not> all_digits nm"
proof
  assume d: "dotted_quad_re nm" and a: "all_digits nm"
  from dotted_quad_reD [OF d] obtain x y z w where
    "nm = x @ CHR ''.'' # y @ CHR ''.'' # z @ CHR ''.'' # w" by blast
  then have "CHR ''.'' \<in> set nm" by simp
  with dot_not_digit [OF a] show False by simp
qed

lemma fromCidr_Some_iff:
  "fromCidr b p = Some r \<longleftrightarrow> IPv4 b = Some (range_ip r) \<and> range_prefix r = p \<and> p \<le> 32"
  by (cases r) (auto simp: fromCidr_def split: option.splits)

lemma buildCIDR_Some_iff:
  "buildCIDR b nm = Some r \<longleftrightarrow> IPv4 b = Some (range_ip r) \<and> mask_prefix nm (range_prefix r)"
proof (cases "all_digits nm")
  case True
  then have "\<not> dotted_quad_re nm" using dotted_quad_not_digits by blast
  with True show ?thesis
    by (auto simp: buildCIDR_def mask_prefix_def fromCidr_Some_iff Let_def split: option.splits)
next
  case nd: False
  show ?thesis
  proof (cases "dotted_quad_re nm")
    case False
    with nd show ?thesis
      by (auto simp: buildCIDR_def mask_prefix_def split: option.splits)
  next
    case True
    have m: "mask_prefix nm n \<longleftrightarrow> netmaskToCIDR nm = Some n" for n
      using nd True netmaskToCIDR_dotted_quad [OF True, of n] by (simp add: mask_prefix_def)
    have le: "n \<le> 32" if "netmaskToCIDR nm = Some n" for n
      using that netmaskToCIDR_dotted_quad [OF True, of n] by (auto simp: mask_bits_contiguous_def)
    show ?thesis
      using nd True le
      by (auto simp: buildCIDR_def m fromCidr_Some_iff split: option.splits)
  qed
qed

lemma block_div_iff:
  fixes a k q :: nat
  assumes k: "0 < k"
  shows "(q * k \<le> a \<and> a \<le> q * k + (k - 1)) \<longleftrightarrow> a div k = q"
proof
  assume h: "q * k \<le> a \<and> a \<le> q * k + (k - 1)"
  have "k * q \<le> a" using h by (simp add: mult.commute)
  moreover have "a < q * k + k" using h k by linarith
  then have "a < k * Suc q" by (simp add: mult.commute)
  ultimately show "a div k = q" by (rule div_nat_eqI)
next
  assume e: "a div k = q"
  have 1: "a = q * k + a mod k" using div_mult_mod_eq [of a k] e by simp
  have 2: "a mod k < k" using k by (rule mod_less_divisor)
  from 1 2 show "q * k \<le> a \<and> a \<le> q * k + (k - 1)" by linarith
qed

lemma contains_iff_same_network:
  "contains r a \<longleftrightarrow> a div 2 ^ (32 - range_prefix r) = range_ip r div 2 ^ (32 - range_prefix r)"
  using block_div_iff [of "2 ^ (32 - range_prefix r)" "range_ip r div 2 ^ (32 - range_prefix r)" a]
  by (simp add: contains_def getFirst_def getLast_def)

lemma contains_ip_iff: "contains_ip ip sn \<longleftrightarrow> subnet_contains sn ip"
proof
  assume "contains_ip ip sn"
  then obtain r where r: "buildCIDR (subnet sn) (netmask sn) = Some r" and c: "contains r ip"
    by (auto simp: contains_ip_def range_of_def split: option.splits)
  from r have "IPv4 (subnet sn) = Some (range_ip r)" "mask_prefix (netmask sn) (range_prefix r)"
    by (simp_all add: buildCIDR_Some_iff)
  moreover from c have "ip div 2 ^ (32 - range_prefix r) = range_ip r div 2 ^ (32 - range_prefix r)"
    by (simp add: contains_iff_same_network)
  ultimately show "subnet_contains sn ip"
    unfolding subnet_contains_def by blast
next
  assume "subnet_contains sn ip"
  then obtain b n where b: "IPv4 (subnet sn) = Some b" and n: "mask_prefix (netmask sn) n"
    and e: "ip div 2 ^ (32 - n) = b div 2 ^ (32 - n)"
    unfolding subnet_contains_def by blast
  have "buildCIDR (subnet sn) (netmask sn) = Some \<lparr>range_ip = b, range_prefix = n\<rparr>"
    using b n by (simp add: buildCIDR_Some_iff)
  moreover have "contains \<lparr>range_ip = b, range_prefix = n\<rparr> ip"
    using e by (simp add: contains_iff_same_network)
  ultimately show "contains_ip ip sn"
    by (simp add: contains_ip_def range_of_def)
qed

lemma findSubnetForIP_sound:
  assumes "IPv4 s = Some ip" and "findSubnetForIP (new_SubnetMatcher sns) s = Some u"
  shows "\<exists>sn\<in>set sns. uuid sn = u \<and> subnet_contains sn ip"
proof -
  from assms have "first_containing (subnets (new_SubnetMatcher sns)) ip = Some u"
    by (simp add: findSubnetForIP_def)
  from first_containing_Some [OF this] obtain r where
    e: "(u, r) \<in> set (subnets (new_SubnetMatcher sns))" and c: "contains r ip" by blast
  from new_SubnetMatcher_entries [OF e] obtain sn where
    sn: "sn \<in> set sns" "uuid sn = u" "range_of sn = Some r" by blast
  then have "contains_ip ip sn" using c by (simp add: contains_ip_def)
  then show ?thesis using sn contains_ip_iff by blast
qed

lemma findSubnetForIP_complete:
  assumes "distinct (map uuid (filter retained sns))" and "IPv4 s = Some ip"
  shows "(\<exists>u. findSubnetForIP (new_SubnetMatcher sns) s = Some u)
           \<longleftrightarrow> (\<exists>sn\<in>set sns. subnet_contains sn ip)"
proof -
  have sm: "subnets (new_SubnetMatcher sns)
      = map (\<lambda>sn. (uuid sn, the (range_of sn))) (filter retained sns)"
    unfolding new_SubnetMatcher_def
    using buildSubnetMap_distinct [of "\<lparr>subnets = [], subnetMetadata = []\<rparr>" sns] assms(1)
    by simp
  have "findSubnetForIP (new_SubnetMatcher sns) s = map_option uuid (find (contains_ip ip) sns)"
    using assms(2) by (simp add: findSubnetForIP_def sm first_containing_entries)
  then have "(\<exists>u. findSubnetForIP (new_SubnetMatcher sns) s = Some u)
      \<longleftrightarrow> find (contains_ip ip) sns \<noteq> None" by auto
  also have "\<dots> \<longleftrightarrow> (\<exists>sn\<in>set sns. contains_ip ip sn)"
    by (auto simp: find_None_iff)
  finally show ?thesis by (simp add: contains_ip_iff)
qed

text \<open>
  C3. For a valid address, findSubnetForIP returns an id exactly when some range kept in the
  map contains the address, and the id returned belongs to such a range. Containment is the
  closed interval from the first to the last address, both included; it is the same as
  agreeing with the base address on the top N bits. A range is kept for a record exactly when
  its base address is valid and its mask denotes a prefix length N, in digits or as a dotted
  netmask, and that N, at most 32, is the prefix of the kept range, which holds
  \<open>2 ^ (32 - N)\<close> addresses. So an id returned is the id of an input record whose subnet
  contains the address, and with pairwise distinct ids an id is returned exactly when some
  input record's subnet contains it. A /32 subnet matches its own address and no other. The
  ranges are those of ip-num, modelled from the spec.
\<close>

theorem findSubnetForIP_iff_contained:
  "(IPv4 s = Some ip \<longrightarrow>
      ((\<exists>u. findSubnetForIP m s = Some u) \<longleftrightarrow> (\<exists>e\<in>set (subnets m). contains (snd e) ip))
      \<and> (\<forall>u. findSubnetForIP m s = Some u \<longrightarrow> (\<exists>r. (u, r) \<in> set (subnets m) \<and> contains r ip)))
   \<and> (contains r a \<longleftrightarrow> getFirst r \<le> a \<and> a \<le> getLast r)
   \<and> contains r (getFirst r) \<and> contains r (getLast r)
   \<and> (\<forall>e\<in>set (subnets (new_SubnetMatcher sns)).
         range_prefix (snd e) \<le> 32
         \<and> getSize (snd e) = 2 ^ (32 - range_prefix (snd e))
         \<and> card {a. contains (snd e) a} = 2 ^ (32 - range_prefix (snd e))
         \<and> (\<exists>sn\<in>set sns. uuid sn = fst e \<and> IPv4 (subnet sn) = Some (range_ip (snd e))
               \<and> mask_prefix (netmask sn) (range_prefix (snd e))))
   \<and> (all_digits nm \<and> buildCIDR b nm = Some r \<longrightarrow> range_prefix r = dec_val nm)
   \<and> (IPv4 h = Some hv \<and> IPv4 x = Some xv \<longrightarrow>
         (findSubnetForIP (new_SubnetMatcher [\<lparr>uuid = u, subnet = h, netmask = ''32''\<rparr>]) x = Some u
            \<longleftrightarrow> xv = hv))
   \<and> (buildCIDR b nm = Some r \<longleftrightarrow> IPv4 b = Some (range_ip r) \<and> mask_prefix nm (range_prefix r))
   \<and> (contains r a \<longleftrightarrow>
         a div 2 ^ (32 - range_prefix r) = range_ip r div 2 ^ (32 - range_prefix r))
   \<and> (IPv4 s = Some ip \<and> findSubnetForIP (new_SubnetMatcher sns) s = Some u \<longrightarrow>
         (\<exists>sn\<in>set sns. uuid sn = u \<and> subnet_contains sn ip))
   \<and> (distinct (map uuid (filter retained sns)) \<and> IPv4 s = Some ip \<longrightarrow>
         ((\<exists>u. findSubnetForIP (new_SubnetMatcher sns) s = Some u)
            \<longleftrightarrow> (\<exists>sn\<in>set sns. subnet_contains sn ip)))"
proof -
  have 1: "IPv4 s = Some ip \<longrightarrow>
      ((\<exists>u. findSubnetForIP m s = Some u) \<longleftrightarrow> (\<exists>e\<in>set (subnets m). contains (snd e) ip))
      \<and> (\<forall>u. findSubnetForIP m s = Some u \<longrightarrow> (\<exists>r. (u, r) \<in> set (subnets m) \<and> contains r ip))"
  proof (intro impI conjI allI)
    assume ip: "IPv4 s = Some ip"
    show "(\<exists>u. findSubnetForIP m s = Some u) \<longleftrightarrow> (\<exists>e\<in>set (subnets m). contains (snd e) ip)"
      by (rule findSubnetForIP_Some_iff [OF ip])
    fix u assume "findSubnetForIP m s = Some u"
    then have "first_containing (subnets m) ip = Some u"
      using ip by (simp add: findSubnetForIP_def)
    then show "\<exists>r. (u, r) \<in> set (subnets m) \<and> contains r ip"
      by (rule first_containing_Some)
  qed
  have 2: "contains r a \<longleftrightarrow> getFirst r \<le> a \<and> a \<le> getLast r"
    by (simp add: contains_def)
  have 3: "\<forall>e\<in>set (subnets (new_SubnetMatcher sns)).
         range_prefix (snd e) \<le> 32
         \<and> getSize (snd e) = 2 ^ (32 - range_prefix (snd e))
         \<and> card {a. contains (snd e) a} = 2 ^ (32 - range_prefix (snd e))
         \<and> (\<exists>sn\<in>set sns. uuid sn = fst e \<and> IPv4 (subnet sn) = Some (range_ip (snd e))
               \<and> mask_prefix (netmask sn) (range_prefix (snd e)))"
  proof
    fix e assume e: "e \<in> set (subnets (new_SubnetMatcher sns))"
    obtain u' r' where p: "e = (u', r')" by (cases e)
    from new_SubnetMatcher_entries [of u' r' sns] e p
    obtain sn where sn: "sn \<in> set sns" "uuid sn = u'" "range_of sn = Some r'" by auto
    then have le: "range_prefix r' \<le> 32"
      using buildCIDR_SomeD [of "subnet sn" "netmask sn" r'] by (simp add: range_of_def)
    have "IPv4 (subnet sn) = Some (range_ip r') \<and> mask_prefix (netmask sn) (range_prefix r')"
      using sn(3) by (simp add: range_of_def buildCIDR_Some_iff)
    with sn(1,2) have ex: "\<exists>sn\<in>set sns. uuid sn = u' \<and> IPv4 (subnet sn) = Some (range_ip r')
               \<and> mask_prefix (netmask sn) (range_prefix r')"
      by blast
    from le ex show "range_prefix (snd e) \<le> 32
         \<and> getSize (snd e) = 2 ^ (32 - range_prefix (snd e))
         \<and> card {a. contains (snd e) a} = 2 ^ (32 - range_prefix (snd e))
         \<and> (\<exists>sn\<in>set sns. uuid sn = fst e \<and> IPv4 (subnet sn) = Some (range_ip (snd e))
               \<and> mask_prefix (netmask sn) (range_prefix (snd e)))"
      by (simp add: p getSize_def card_contains)
  qed
  have 4: "all_digits nm \<and> buildCIDR b nm = Some r \<longrightarrow> range_prefix r = dec_val nm"
    using buildCIDR_prefix_digits by blast
  have 5: "IPv4 h = Some hv \<and> IPv4 x = Some xv \<longrightarrow>
         (findSubnetForIP (new_SubnetMatcher [\<lparr>uuid = u, subnet = h, netmask = ''32''\<rparr>]) x = Some u
            \<longleftrightarrow> xv = hv)"
  proof
    assume a: "IPv4 h = Some hv \<and> IPv4 x = Some xv"
    then have "subnets (new_SubnetMatcher [\<lparr>uuid = u, subnet = h, netmask = ''32''\<rparr>])
        = [(u, \<lparr>range_ip = hv, range_prefix = 32\<rparr>)]"
      by (simp add: new_SubnetMatcher_def buildSubnetMap_step_def buildCIDR_host)
    then show "findSubnetForIP (new_SubnetMatcher [\<lparr>uuid = u, subnet = h, netmask = ''32''\<rparr>]) x = Some u
            \<longleftrightarrow> xv = hv"
      using a by (simp add: findSubnetForIP_def contains_host)
  qed
  have 6: "buildCIDR b nm = Some r \<longleftrightarrow> IPv4 b = Some (range_ip r) \<and> mask_prefix nm (range_prefix r)"
    by (rule buildCIDR_Some_iff)
  have 7: "contains r a \<longleftrightarrow>
         a div 2 ^ (32 - range_prefix r) = range_ip r div 2 ^ (32 - range_prefix r)"
    by (rule contains_iff_same_network)
  have 8: "IPv4 s = Some ip \<and> findSubnetForIP (new_SubnetMatcher sns) s = Some u \<longrightarrow>
         (\<exists>sn\<in>set sns. uuid sn = u \<and> subnet_contains sn ip)"
    using findSubnetForIP_sound [of s ip sns u] by blast
  have 9: "distinct (map uuid (filter retained sns)) \<and> IPv4 s = Some ip \<longrightarrow>
         ((\<exists>u. findSubnetForIP (new_SubnetMatcher sns) s = Some u)
            \<longleftrightarrow> (\<exists>sn\<in>set sns. subnet_contains sn ip))"
    using findSubnetForIP_complete [of sns s ip] by blast
  from 1 2 contains_ends(1,2) 3 4 5 6 7 8 9 show ?thesis by (intro conjI)
qed

theorem findSubnetForIP_iff_contained_witness:
  "IPv4 ''192.168.1.100'' = Some 3232235876 \<and> IPv4 ''192.168.1.101'' = Some 3232235877
   \<and> findSubnetForIP (new_SubnetMatcher [\<lparr>uuid = ''uuid-1'', subnet = ''192.168.1.100'', netmask = ''32''\<rparr>])
        ''192.168.1.100'' = Some ''uuid-1''
   \<and> findSubnetForIP (new_SubnetMatcher [\<lparr>uuid = ''uuid-1'', subnet = ''192.168.1.100'', netmask = ''32''\<rparr>])
        ''192.168.1.101'' \<noteq> Some ''uuid-1''
   \<and> (\<exists>e\<in>set (subnets (new_SubnetMatcher
         [\<lparr>uuid = ''uuid-1'', subnet = ''192.168.1.100'', netmask = ''32''\<rparr>])).
         contains (snd e) 3232235876)
   \<and> card {a. contains \<lparr>range_ip = 3232235876, range_prefix = 32\<rparr> a} = 1
   \<and> buildCIDR ''192.168.1.0'' ''255.255.255.0'' = Some \<lparr>range_ip = 3232235776, range_prefix = 24\<rparr>
   \<and> mask_prefix ''255.255.255.0'' 24
   \<and> card {a. contains \<lparr>range_ip = 3232235776, range_prefix = 24\<rparr> a} = 256
   \<and> findSubnetForIP (new_SubnetMatcher
        [\<lparr>uuid = ''uuid-1'', subnet = ''192.168.1.0'', netmask = ''255.255.255.0''\<rparr>])
        ''192.168.1.100'' = Some ''uuid-1''
   \<and> subnet_contains \<lparr>uuid = ''uuid-1'', subnet = ''192.168.1.0'', netmask = ''255.255.255.0''\<rparr>
        3232235876"
proof -
  let ?m = "new_SubnetMatcher [\<lparr>uuid = ''uuid-1'', subnet = ''192.168.1.100'', netmask = ''32''\<rparr>]"
  let ?d = "\<lparr>uuid = ''uuid-1'', subnet = ''192.168.1.0'', netmask = ''255.255.255.0''\<rparr>"
  note t = findSubnetForIP_iff_contained
    [where s = "''192.168.1.100''" and ip = 3232235876 and m = ?m
       and sns = "[\<lparr>uuid = ''uuid-1'', subnet = ''192.168.1.100'', netmask = ''32''\<rparr>]"]
  note d = findSubnetForIP_iff_contained
    [where s = "''192.168.1.100''" and ip = 3232235876 and sns = "[?d]" and u = "''uuid-1''"
       and b = "''192.168.1.0''" and nm = "''255.255.255.0''"
       and r = "\<lparr>range_ip = 3232235776, range_prefix = 24\<rparr>"]
  have sm: "subnets ?m = [(''uuid-1'', \<lparr>range_ip = 3232235876, range_prefix = 32\<rparr>)]"
    by (simp add: new_SubnetMatcher_def buildSubnetMap_step_def buildCIDR_host IPv4_192_168_1_100)
  have 1: "findSubnetForIP ?m ''192.168.1.100'' = Some ''uuid-1''"
    using findSubnetForIP_iff_contained
      [where h = "''192.168.1.100''" and hv = 3232235876 and x = "''192.168.1.100''"
          and xv = 3232235876 and u = "''uuid-1''",
        THEN conjunct2, THEN conjunct2, THEN conjunct2, THEN conjunct2, THEN conjunct2,
        THEN conjunct2, THEN conjunct1]
      IPv4_192_168_1_100 by simp
  have 2: "findSubnetForIP ?m ''192.168.1.101'' \<noteq> Some ''uuid-1''"
    using findSubnetForIP_iff_contained
      [where h = "''192.168.1.100''" and hv = 3232235876 and x = "''192.168.1.101''"
          and xv = 3232235877 and u = "''uuid-1''",
        THEN conjunct2, THEN conjunct2, THEN conjunct2, THEN conjunct2, THEN conjunct2,
        THEN conjunct2, THEN conjunct1]
      IPv4_192_168_1_100 IPv4_192_168_1_101 by simp
  have 3: "\<exists>e\<in>set (subnets ?m). contains (snd e) 3232235876"
    using t [THEN conjunct1, rule_format, OF IPv4_192_168_1_100, THEN conjunct1] 1 by simp
  have 4: "card {a. contains \<lparr>range_ip = 3232235876, range_prefix = 32\<rparr> a} = 1"
    using t [THEN conjunct2, THEN conjunct2, THEN conjunct2, THEN conjunct2, THEN conjunct1]
    by (simp add: sm)
  have b: "buildCIDR ''192.168.1.0'' ''255.255.255.0''
      = Some \<lparr>range_ip = 3232235776, range_prefix = 24\<rparr>"
    by (simp add: eval_defs netmask_examples dotted_quad_re_examples)
  have 5: "mask_prefix ''255.255.255.0'' 24"
    using d [THEN conjunct2, THEN conjunct2, THEN conjunct2, THEN conjunct2, THEN conjunct2,
        THEN conjunct2, THEN conjunct2, THEN conjunct1] b by simp
  have smd: "subnets (new_SubnetMatcher [?d])
      = [(''uuid-1'', \<lparr>range_ip = 3232235776, range_prefix = 24\<rparr>)]"
    by (simp add: new_SubnetMatcher_def buildSubnetMap_step_def b)
  have 6: "card {a. contains \<lparr>range_ip = 3232235776, range_prefix = 24\<rparr> a} = 256"
    using d [THEN conjunct2, THEN conjunct2, THEN conjunct2, THEN conjunct2, THEN conjunct1]
    by (simp add: smd)
  have 7: "findSubnetForIP (new_SubnetMatcher [?d]) ''192.168.1.100'' = Some ''uuid-1''"
    by (simp add: findSubnetForIP_def IPv4_192_168_1_100 smd contains_def getFirst_def getLast_def)
  have 8: "subnet_contains ?d 3232235876"
    using d [THEN conjunct2, THEN conjunct2, THEN conjunct2, THEN conjunct2, THEN conjunct2,
        THEN conjunct2, THEN conjunct2, THEN conjunct2, THEN conjunct2, THEN conjunct1]
      IPv4_192_168_1_100 7 by simp
  show ?thesis
    using IPv4_192_168_1_100 IPv4_192_168_1_101 1 2 3 4 b 5 6 7 8 by (intro conjI)
qed

section \<open>Migration: proofs\<close>

lemma migrate_step_by_outcome:
  "migrate_step this g i mp st =
     (case step_outcome this mp of
        MissingFields \<Rightarrow> st\<lparr>warnings := warnings st @ [missing_fields_warning i mp]\<rparr>
      | InvalidMAC \<Rightarrow> st\<lparr>warnings := warnings st @ [invalid_mac_warning mp]\<rparr>
      | InvalidIP \<Rightarrow> st\<lparr>errors := errors st @ [invalid_ip_error mp]\<rparr>
      | Unmatched \<Rightarrow> st\<lparr>unmatchedIPs := unmatchedIPs st @ [ipaddr mp],
                       warnings := warnings st @ [no_subnet_warning mp]\<rparr>
      | Success \<Rightarrow> st\<lparr>reservations := reservations st @
                       [reservation_at this g (length (reservations st), mp)]\<rparr>)"
  by (simp add: migrate_step_def step_outcome_def reservation_at_def Let_def)

lemma first_containing_truthy:
  "list_all (\<lambda>e. fst e \<noteq> []) es \<Longrightarrow>
     truthy (first_containing es ip) \<longleftrightarrow> list_ex (\<lambda>e. contains (snd e) ip) es"
proof (induction es)
  case Nil
  then show ?case by (simp add: truthy_def)
next
  case (Cons e es)
  obtain u r where e: "e = (u, r)" by (cases e)
  show ?case using Cons by (simp add: e truthy_def)
qed

lemma step_outcome_eq:
  assumes "ids_nonempty this"
  shows "step_outcome this mp = outcome_of this mp"
proof (cases "isValidIP (ipaddr mp)")
  case False
  then show ?thesis by (simp add: step_outcome_def outcome_of_def)
next
  case True
  then obtain ip where ip: "IPv4 (ipaddr mp) = Some ip"
    by (auto simp: isValidIP_def split: option.splits)
  have "truthy (findSubnetForIP (subnetMatcher this) (ipaddr mp)) = in_some_range this (ipaddr mp)"
    using assms by (simp add: findSubnetForIP_def in_some_range_def ip ids_nonempty_def
        first_containing_truthy)
  then show ?thesis by (simp add: step_outcome_def outcome_of_def)
qed

lemma migrate_loop_append:
  "migrate_loop this g i (mps @ mps') st =
     migrate_loop this g (i + length mps) mps' (migrate_loop this g i mps st)"
  by (induction mps arbitrary: i st) simp_all

lemma step_counts:
  "length (reservations (migrate_step this g i mp st)) + length (warnings (migrate_step this g i mp st))
     + length (errors (migrate_step this g i mp st))
   = Suc (length (reservations st) + length (warnings st) + length (errors st))"
  by (simp add: migrate_step_by_outcome split: outcome.splits)

lemma loop_counts:
  "length (reservations (migrate_loop this g i mps st)) + length (warnings (migrate_loop this g i mps st))
     + length (errors (migrate_loop this g i mps st))
   = length (reservations st) + length (warnings st) + length (errors st) + length mps"
proof (induction mps arbitrary: i st)
  case Nil
  then show ?case by simp
next
  case (Cons mp mps)
  show ?case
    using Cons.IH [of "Suc i" "migrate_step this g i mp st"] step_counts [of this g i mp st]
    by simp
qed

lemma loop_unmatched_le:
  "length (unmatchedIPs st) \<le> length (warnings st) \<Longrightarrow>
   length (unmatchedIPs (migrate_loop this g i mps st)) \<le> length (warnings (migrate_loop this g i mps st))"
proof (induction mps arbitrary: i st)
  case Nil
  then show ?case by simp
next
  case (Cons mp mps)
  have "length (unmatchedIPs (migrate_step this g i mp st)) \<le> length (warnings (migrate_step this g i mp st))"
    using Cons.prems by (simp add: migrate_step_by_outcome split: outcome.splits)
  from Cons.IH [OF this] show ?case by simp
qed

lemma migrate_fields:
  "reservations (migrate this g mps) = reservations (migrate_loop this g 0 mps
      \<lparr>reservations = [], unmatchedIPs = [], warnings = [], errors = []\<rparr>)"
  "unmatchedIPs (migrate this g mps) = unmatchedIPs (migrate_loop this g 0 mps
      \<lparr>reservations = [], unmatchedIPs = [], warnings = [], errors = []\<rparr>)"
  "warnings (migrate this g mps) = warnings (migrate_loop this g 0 mps
      \<lparr>reservations = [], unmatchedIPs = [], warnings = [], errors = []\<rparr>)"
  "errors (migrate this g mps) = errors (migrate_loop this g 0 mps
      \<lparr>reservations = [], unmatchedIPs = [], warnings = [], errors = []\<rparr>)"
  "reservationsCreated (migrate this g mps) = int (length (reservations (migrate this g mps)))"
  by (simp_all add: migrate_def Let_def)

lemma loop_reservations:
  "reservations (migrate_loop this g i mps st) =
     reservations st @ map (reservation_at this g)
       (enumerate (length (reservations st)) (filter (succeeds this) mps))"
proof (induction mps arbitrary: i st)
  case Nil
  then show ?case by simp
next
  case (Cons mp mps)
  show ?case
    by (cases "step_outcome this mp")
      (simp_all add: Cons.IH migrate_step_by_outcome succeeds_def)
qed

lemma loop_errors:
  "errors (migrate_loop this g i mps st) =
     errors st @ map invalid_ip_error (filter (has_invalid_ip this) mps)"
proof (induction mps arbitrary: i st)
  case Nil
  then show ?case by simp
next
  case (Cons mp mps)
  show ?case
    by (cases "step_outcome this mp")
      (simp_all add: Cons.IH migrate_step_by_outcome has_invalid_ip_def)
qed

lemma loop_unmatched:
  "unmatchedIPs (migrate_loop this g i mps st) =
     unmatchedIPs st @ map ipaddr (filter (is_unmatched this) mps)"
proof (induction mps arbitrary: i st)
  case Nil
  then show ?case by simp
next
  case (Cons mp mps)
  show ?case
    by (cases "step_outcome this mp")
      (simp_all add: Cons.IH migrate_step_by_outcome is_unmatched_def)
qed

lemma loop_warnings:
  "warnings (migrate_loop this g i mps st) =
     warnings st @ concat (map (warnings_at this) (enumerate i mps))"
proof (induction mps arbitrary: i st)
  case Nil
  then show ?case by simp
next
  case (Cons mp mps)
  show ?case
    by (cases "step_outcome this mp")
      (simp_all add: Cons.IH migrate_step_by_outcome warnings_at_def)
qed

lemma isValidMAC_example: "isValidMAC ''AA:BB:CC:DD:EE:FF''"
  by (simp add: isValidMAC_def mac_pattern_grouped_def is_hex_def is_sep_def eval_nat_numeral)

lemma isValidIP_10_0_0_5: "isValidIP ''10.0.0.5''"
  by (simp add: isValidIP_def IPv4_10_0_0_5)

lemma matcher_s1:
  "new_SubnetMatcher [\<lparr>uuid = ''s1'', subnet = ''10.0.0.0'', netmask = ''8''\<rparr>]
     = \<lparr>subnets = [(''s1'', \<lparr>range_ip = 167772160, range_prefix = 8\<rparr>)],
        subnetMetadata = [(''s1'', \<lparr>uuid = ''s1'', subnet = ''10.0.0.0'', netmask = ''8''\<rparr>)]\<rparr>"
  by (simp add: new_SubnetMatcher_def buildSubnetMap_step_def buildCIDR_examples)

lemma matcher_empty_id:
  "new_SubnetMatcher [\<lparr>uuid = [], subnet = ''10.0.0.0'', netmask = ''8''\<rparr>]
     = \<lparr>subnets = [([], \<lparr>range_ip = 167772160, range_prefix = 8\<rparr>)],
        subnetMetadata = [([], \<lparr>uuid = [], subnet = ''10.0.0.0'', netmask = ''8''\<rparr>)]\<rparr>"
  by (simp add: new_SubnetMatcher_def buildSubnetMap_step_def buildCIDR_examples)

lemma IPv4_172_16_0_1: "IPv4 ''172.16.0.1'' = Some 2886729729"
  by (simp add: IPv4_def all_digits_def is_digit_def dec_val_def digit_val_def ipv4_value_def)

lemma not_contains_172: "\<not> contains \<lparr>range_ip = 167772160, range_prefix = 8\<rparr> 2886729729"
  by (simp add: contains_def getFirst_def getLast_def)

lemma count_validMappings_eq:
  "count_validMappings mps n = n + length (filter (\<lambda>mp. mac mp \<noteq> [] \<and> ipaddr mp \<noteq> []) mps)"
  by (induction mps arbitrary: n) simp_all

lemma count_validMappings_zero:
  "count_validMappings mps 0 = 0 \<longleftrightarrow> (\<forall>mp\<in>set mps. mac mp = [] \<or> ipaddr mp = [])"
  by (auto simp: count_validMappings_eq filter_empty_conv)

lemma buildSubnetMap_keys:
  "map fst (subnetMetadata m) = map fst (subnets m) \<Longrightarrow>
   map fst (subnetMetadata (buildSubnetMap sns m)) = map fst (subnets (buildSubnetMap sns m))"
proof (induction sns arbitrary: m)
  case Nil
  then show ?case by simp
next
  case (Cons sn sns)
  have "map fst (subnetMetadata (buildSubnetMap_step sn m))
      = map fst (subnets (buildSubnetMap_step sn m))"
    using Cons.prems by (simp add: buildSubnetMap_step_cases map_fst_map_set)
  from Cons.IH [OF this] show ?case by simp
qed

lemma new_SubnetMatcher_lengths:
  "length (subnetMetadata (new_SubnetMatcher sns)) = length (subnets (new_SubnetMatcher sns))"
  using arg_cong [OF buildSubnetMap_keys [of "\<lparr>subnets = [], subnetMetadata = []\<rparr>" sns], of length]
  by (simp add: new_SubnetMatcher_def)

lemma issue_strings_distinct:
  "no_subnets_issue \<noteq> no_mappings_issue" "no_subnets_issue \<noteq> no_valid_mappings_issue"
  "no_mappings_issue \<noteq> no_valid_mappings_issue"
  by (simp_all add: no_subnets_issue_def no_mappings_issue_def no_valid_mappings_issue_def)

lemma issues_of_validateMigration:
  "issues (validateMigration this mps) =
     (if subnetMetadata (subnetMatcher this) = [] then [no_subnets_issue] else [])
     @ (if mps = [] then [no_mappings_issue] else [])
     @ (if mps \<noteq> [] \<and> (\<forall>mp\<in>set mps. mac mp = [] \<or> ipaddr mp = [])
        then [no_valid_mappings_issue] else [])"
  by (simp add: validateMigration_def getAllSubnets_def Let_def count_validMappings_zero)


text \<open>
  C5, as amended. When no id kept in the matcher is the empty string, the body of the loop
  has exactly one of five effects on the four arrays, decided in this order: an empty
  hardware address or IP adds one warning and nothing else; otherwise an invalid hardware
  address adds one warning; otherwise an invalid IP adds one entry to the errors, not to the
  warnings; otherwise an IP that no retained range contains is appended to the unmatched list
  and adds one warning; otherwise one reservation is appended. The loop goes on after every
  outcome: running it over a list and then over a second one is running it over both, every
  record accounts for exactly one reservation, warning or error, and every unmatched IP comes
  with a warning.
\<close>

theorem migrate_record_outcomes:
  assumes "ids_nonempty this"
  shows "migrate_step this g i mp st =
     (case outcome_of this mp of
        MissingFields \<Rightarrow> st\<lparr>warnings := warnings st @ [missing_fields_warning i mp]\<rparr>
      | InvalidMAC \<Rightarrow> st\<lparr>warnings := warnings st @ [invalid_mac_warning mp]\<rparr>
      | InvalidIP \<Rightarrow> st\<lparr>errors := errors st @ [invalid_ip_error mp]\<rparr>
      | Unmatched \<Rightarrow> st\<lparr>unmatchedIPs := unmatchedIPs st @ [ipaddr mp],
                       warnings := warnings st @ [no_subnet_warning mp]\<rparr>
      | Success \<Rightarrow> st\<lparr>reservations := reservations st @
                       [make_reservation (g (length (reservations st)))
                          (the (findSubnetForIP (subnetMatcher this) (ipaddr mp))) mp]\<rparr>)
    \<and> migrate_loop this g i (mps @ mps') st =
        migrate_loop this g (i + length mps) mps' (migrate_loop this g i mps st)
    \<and> length (reservations (migrate this g mps)) + length (warnings (migrate this g mps))
        + length (errors (migrate this g mps)) = length mps
    \<and> length (unmatchedIPs (migrate this g mps)) \<le> length (warnings (migrate this g mps))"
proof -
  have 1: "migrate_step this g i mp st =
     (case outcome_of this mp of
        MissingFields \<Rightarrow> st\<lparr>warnings := warnings st @ [missing_fields_warning i mp]\<rparr>
      | InvalidMAC \<Rightarrow> st\<lparr>warnings := warnings st @ [invalid_mac_warning mp]\<rparr>
      | InvalidIP \<Rightarrow> st\<lparr>errors := errors st @ [invalid_ip_error mp]\<rparr>
      | Unmatched \<Rightarrow> st\<lparr>unmatchedIPs := unmatchedIPs st @ [ipaddr mp],
                       warnings := warnings st @ [no_subnet_warning mp]\<rparr>
      | Success \<Rightarrow> st\<lparr>reservations := reservations st @
                       [make_reservation (g (length (reservations st)))
                          (the (findSubnetForIP (subnetMatcher this) (ipaddr mp))) mp]\<rparr>)"
    unfolding migrate_step_by_outcome step_outcome_eq [OF assms] reservation_at_def
    by (cases "outcome_of this mp") simp_all
  have 2: "length (reservations (migrate this g mps)) + length (warnings (migrate this g mps))
        + length (errors (migrate this g mps)) = length mps"
    unfolding migrate_fields using loop_counts [of this g 0 mps] by simp
  have 3: "length (unmatchedIPs (migrate this g mps)) \<le> length (warnings (migrate this g mps))"
    unfolding migrate_fields by (rule loop_unmatched_le) simp
  from 1 migrate_loop_append 2 3 show ?thesis by (intro conjI)
qed

theorem migrate_record_outcomes_witness:
  "ids_nonempty (new_DHCPMigrator [\<lparr>uuid = ''s1'', subnet = ''10.0.0.0'', netmask = ''8''\<rparr>] False)
   \<and> outcome_of (new_DHCPMigrator [\<lparr>uuid = ''s1'', subnet = ''10.0.0.0'', netmask = ''8''\<rparr>] False)
        \<lparr>mac = ''AA:BB:CC:DD:EE:FF'', ipaddr = ''10.0.0.5'', hostname = None, description = None,
          cid = None, descr = None\<rparr> = Success
   \<and> migrate_step (new_DHCPMigrator [\<lparr>uuid = ''s1'', subnet = ''10.0.0.0'', netmask = ''8''\<rparr>] False)
        example_randomUUID 0
        \<lparr>mac = ''AA:BB:CC:DD:EE:FF'', ipaddr = ''10.0.0.5'', hostname = None, description = None,
          cid = None, descr = None\<rparr>
        \<lparr>reservations = [], unmatchedIPs = [], warnings = [], errors = []\<rparr>
      = \<lparr>reservations = [\<lparr>r_uuid = example_randomUUID 0, r_subnet = ''s1'',
             hw_address = ''AA:BB:CC:DD:EE:FF'', ip_address = ''10.0.0.5'',
             r_hostname = None, r_description = None\<rparr>],
           unmatchedIPs = [], warnings = [], errors = []\<rparr>"
proof -
  let ?mig = "new_DHCPMigrator [\<lparr>uuid = ''s1'', subnet = ''10.0.0.0'', netmask = ''8''\<rparr>] False"
  let ?mp = "\<lparr>mac = ''AA:BB:CC:DD:EE:FF'', ipaddr = ''10.0.0.5'', hostname = None,
      description = None, cid = None, descr = None\<rparr>"
  have a: "ids_nonempty ?mig"
    by (simp add: ids_nonempty_def new_DHCPMigrator_def matcher_s1)
  have b: "outcome_of ?mig ?mp = Success"
    by (simp add: outcome_of_def isValidMAC_example isValidIP_10_0_0_5 in_some_range_def
        IPv4_10_0_0_5 new_DHCPMigrator_def matcher_s1 contains_examples)
  have c: "findSubnetForIP (subnetMatcher ?mig) ''10.0.0.5'' = Some ''s1''"
    by (simp add: findSubnetForIP_def IPv4_10_0_0_5 new_DHCPMigrator_def matcher_s1
        contains_examples)
  show ?thesis
    using migrate_record_outcomes [OF a, THEN conjunct1, of example_randomUUID 0 ?mp
        "\<lparr>reservations = [], unmatchedIPs = [], warnings = [], errors = []\<rparr>"] a b
    by (simp add: c make_reservation_def truthy_def js_or_def)
qed


text \<open>
  C5 as stated fails when the range that contains the address is kept under the empty id:
  findSubnetForIP returns the empty string, \<^verbatim>\<open>!subnetUUID\<close> holds of it, and the record
  is reported as unmatched although a retained range contains its address.
\<close>

theorem migrate_empty_id_counterexample:
  "isValidMAC ''AA:BB:CC:DD:EE:FF'' \<and> isValidIP ''10.0.0.5''
   \<and> in_some_range (new_DHCPMigrator [\<lparr>uuid = [], subnet = ''10.0.0.0'', netmask = ''8''\<rparr>] False)
        ''10.0.0.5''
   \<and> migrate (new_DHCPMigrator [\<lparr>uuid = [], subnet = ''10.0.0.0'', netmask = ''8''\<rparr>] False)
        example_randomUUID
        [\<lparr>mac = ''AA:BB:CC:DD:EE:FF'', ipaddr = ''10.0.0.5'', hostname = None, description = None,
          cid = None, descr = None\<rparr>]
      = \<lparr>reservations = [], unmatchedIPs = [''10.0.0.5''],
         warnings = [''No subnet found for IP: 10.0.0.5 (MAC: AA:BB:CC:DD:EE:FF)''],
         errors = [], reservationsCreated = 0\<rparr>"
proof -
  let ?mig = "new_DHCPMigrator [\<lparr>uuid = [], subnet = ''10.0.0.0'', netmask = ''8''\<rparr>] False"
  have a: "in_some_range ?mig ''10.0.0.5''"
    by (simp add: in_some_range_def IPv4_10_0_0_5 new_DHCPMigrator_def matcher_empty_id
        contains_examples)
  have c: "findSubnetForIP (subnetMatcher ?mig) ''10.0.0.5'' = Some []"
    by (simp add: findSubnetForIP_def IPv4_10_0_0_5 new_DHCPMigrator_def matcher_empty_id
        contains_examples)
  show ?thesis
    using a isValidMAC_example isValidIP_10_0_0_5
    by (simp add: migrate_def migrate_step_def c truthy_def no_subnet_warning_def)
qed

text \<open>
  C6. The reservations returned by migrate are those of the records that reach the success
  branch, in the order of the input, the k-th of them carrying the k-th generated
  identifier; the errors, the unmatched IPs and the warnings are those of the records in
  input order, one entry for each record that produces one, none removed as a duplicate.
\<close>

theorem migrate_preserves_order:
  "reservations (migrate this g mps) =
      map (reservation_at this g) (enumerate 0 (filter (succeeds this) mps))
   \<and> errors (migrate this g mps) = map invalid_ip_error (filter (has_invalid_ip this) mps)
   \<and> unmatchedIPs (migrate this g mps) = map ipaddr (filter (is_unmatched this) mps)
   \<and> warnings (migrate this g mps) = concat (map (warnings_at this) (enumerate 0 mps))"
  unfolding migrate_fields
  by (simp add: loop_reservations loop_errors loop_unmatched loop_warnings)


theorem migrate_preserves_order_witness:
  "unmatchedIPs (migrate (new_DHCPMigrator [\<lparr>uuid = ''s1'', subnet = ''10.0.0.0'', netmask = ''8''\<rparr>] False)
      example_randomUUID
      [\<lparr>mac = ''AA:BB:CC:DD:EE:FF'', ipaddr = ''172.16.0.1'', hostname = None, description = None,
          cid = None, descr = None\<rparr>,
       \<lparr>mac = ''AA:BB:CC:DD:EE:FF'', ipaddr = ''10.0.0.5'', hostname = None, description = None,
          cid = None, descr = None\<rparr>,
       \<lparr>mac = ''AA:BB:CC:DD:EE:FF'', ipaddr = ''172.16.0.1'', hostname = None, description = None,
          cid = None, descr = None\<rparr>])
     = [''172.16.0.1'', ''172.16.0.1'']
   \<and> map ip_address (reservations (migrate
      (new_DHCPMigrator [\<lparr>uuid = ''s1'', subnet = ''10.0.0.0'', netmask = ''8''\<rparr>] False)
      example_randomUUID
      [\<lparr>mac = ''AA:BB:CC:DD:EE:FF'', ipaddr = ''172.16.0.1'', hostname = None, description = None,
          cid = None, descr = None\<rparr>,
       \<lparr>mac = ''AA:BB:CC:DD:EE:FF'', ipaddr = ''10.0.0.5'', hostname = None, description = None,
          cid = None, descr = None\<rparr>,
       \<lparr>mac = ''AA:BB:CC:DD:EE:FF'', ipaddr = ''172.16.0.1'', hostname = None, description = None,
          cid = None, descr = None\<rparr>]))
     = [''10.0.0.5'']"
proof -
  let ?mig = "new_DHCPMigrator [\<lparr>uuid = ''s1'', subnet = ''10.0.0.0'', netmask = ''8''\<rparr>] False"
  let ?a = "\<lparr>mac = ''AA:BB:CC:DD:EE:FF'', ipaddr = ''172.16.0.1'', hostname = None,
      description = None, cid = None, descr = None\<rparr>"
  let ?b = "\<lparr>mac = ''AA:BB:CC:DD:EE:FF'', ipaddr = ''10.0.0.5'', hostname = None,
      description = None, cid = None, descr = None\<rparr>"
  have f1: "findSubnetForIP (subnetMatcher ?mig) ''172.16.0.1'' = None"
    by (simp add: findSubnetForIP_def IPv4_172_16_0_1 new_DHCPMigrator_def matcher_s1
        not_contains_172)
  have f2: "findSubnetForIP (subnetMatcher ?mig) ''10.0.0.5'' = Some ''s1''"
    by (simp add: findSubnetForIP_def IPv4_10_0_0_5 new_DHCPMigrator_def matcher_s1
        contains_examples)
  have v: "isValidIP ''172.16.0.1''" by (simp add: isValidIP_def IPv4_172_16_0_1)
  have a: "step_outcome ?mig ?a = Unmatched"
    by (simp add: step_outcome_def isValidMAC_example v f1 truthy_def)
  have b: "step_outcome ?mig ?b = Success"
    by (simp add: step_outcome_def isValidMAC_example isValidIP_10_0_0_5 f2 truthy_def)
  note t = migrate_preserves_order [of ?mig example_randomUUID "[?a, ?b, ?a]"]
  have 1: "unmatchedIPs (migrate ?mig example_randomUUID [?a, ?b, ?a]) = [''172.16.0.1'', ''172.16.0.1'']"
    unfolding t [THEN conjunct2, THEN conjunct2, THEN conjunct1]
    by (simp add: is_unmatched_def a b)
  have 2: "map ip_address (reservations (migrate ?mig example_randomUUID [?a, ?b, ?a])) = [''10.0.0.5'']"
    unfolding t [THEN conjunct1]
    by (simp add: succeeds_def a b reservation_at_def make_reservation_def)
  from 1 2 show ?thesis by (rule conjI)
qed






text \<open>
  C8. validateMigration reports valid exactly when it has no issue; the no-subnets issue
  exactly when the matcher kept no range, the no-mappings issue exactly when the list is
  empty, and the no-valid-mappings issue exactly when the list is not empty and every mapping
  has an empty hardware address or an empty IP. The function is total and returns only the
  record of its result: the source assigns to nothing but its local variables.
\<close>

theorem validateMigration_issues:
  "(valid (validateMigration this mps) \<longleftrightarrow> issues (validateMigration this mps) = [])
   \<and> (no_subnets_issue \<in> set (issues (validateMigration (new_DHCPMigrator sns v) mps))
        \<longleftrightarrow> subnets (new_SubnetMatcher sns) = [])
   \<and> (no_mappings_issue \<in> set (issues (validateMigration this mps)) \<longleftrightarrow> mps = [])
   \<and> (no_valid_mappings_issue \<in> set (issues (validateMigration this mps))
        \<longleftrightarrow> mps \<noteq> [] \<and> (\<forall>mp\<in>set mps. mac mp = [] \<or> ipaddr mp = []))"
proof -
  have 1: "valid (validateMigration this mps) \<longleftrightarrow> issues (validateMigration this mps) = []"
    by (simp add: validateMigration_def Let_def)
  have "subnetMetadata (new_SubnetMatcher sns) = [] \<longleftrightarrow> subnets (new_SubnetMatcher sns) = []"
    using new_SubnetMatcher_lengths [of sns] by (metis length_0_conv)
  then have 2: "no_subnets_issue \<in> set (issues (validateMigration (new_DHCPMigrator sns v) mps))
        \<longleftrightarrow> subnets (new_SubnetMatcher sns) = []"
    using issue_strings_distinct
    by (simp add: issues_of_validateMigration new_DHCPMigrator_def)
  have 3: "no_mappings_issue \<in> set (issues (validateMigration this mps)) \<longleftrightarrow> mps = []"
    using issue_strings_distinct by (auto simp: issues_of_validateMigration)
  have 4: "no_valid_mappings_issue \<in> set (issues (validateMigration this mps))
        \<longleftrightarrow> mps \<noteq> [] \<and> (\<forall>mp\<in>set mps. mac mp = [] \<or> ipaddr mp = [])"
    using issue_strings_distinct by (auto simp: issues_of_validateMigration)
  from 1 2 3 4 show ?thesis by (intro conjI)
qed

theorem validateMigration_issues_witness:
  "issues (validateMigration
      (new_DHCPMigrator [\<lparr>uuid = ''s1'', subnet = ''10.0.0.0'', netmask = ''8''\<rparr>] False)
      [\<lparr>mac = [], ipaddr = ''10.0.0.5'', hostname = None, description = None, cid = None, descr = None\<rparr>])
     = [no_valid_mappings_issue]
   \<and> \<not> valid (validateMigration
      (new_DHCPMigrator [\<lparr>uuid = ''s1'', subnet = ''10.0.0.0'', netmask = ''8''\<rparr>] False)
      [\<lparr>mac = [], ipaddr = ''10.0.0.5'', hostname = None, description = None, cid = None, descr = None\<rparr>])
   \<and> no_valid_mappings_issue \<in> set (issues (validateMigration
      (new_DHCPMigrator [\<lparr>uuid = ''s1'', subnet = ''10.0.0.0'', netmask = ''8''\<rparr>] False)
      [\<lparr>mac = [], ipaddr = ''10.0.0.5'', hostname = None, description = None, cid = None, descr = None\<rparr>]))"
proof -
  let ?mig = "new_DHCPMigrator [\<lparr>uuid = ''s1'', subnet = ''10.0.0.0'', netmask = ''8''\<rparr>] False"
  let ?mps = "[\<lparr>mac = [], ipaddr = ''10.0.0.5'', hostname = None, description = None,
      cid = None, descr = None\<rparr>]"
  have i: "issues (validateMigration ?mig ?mps) = [no_valid_mappings_issue]"
    by (simp add: validateMigration_def getAllSubnets_def new_DHCPMigrator_def matcher_s1)
  note t = validateMigration_issues [of ?mig ?mps]
  have 4: "no_valid_mappings_issue \<in> set (issues (validateMigration ?mig ?mps))"
    using t [THEN conjunct2, THEN conjunct2, THEN conjunct2] by simp
  have 1: "\<not> valid (validateMigration ?mig ?mps)"
    using t [THEN conjunct1] i by simp
  from i 1 4 show ?thesis by (intro conjI)
qed

end
